theory Spec2Isabelle
  imports Main "HOL-Library.Word" "HOL-Library.Monad_Syntax"
begin

section \<open>Memory model for \<open>include/common/mini-clist.h\<close>\<close>

text \<open>
  A pointer is a machine word, of 64 bits here; nothing below depends on the width.
  A \<open>struct list\<close> has the two pointer fields \<open>n\<close> (next)
  and \<open>p\<close> (prev). The heap maps the address of every live \<open>struct list\<close> to its
  contents; an address outside the domain of the heap holds no object.

  Every operation returns an \<open>option\<close>: \<open>None\<close> stands for behaviour that C leaves
  undefined (an access through a pointer to no object, or two unsequenced conflicting
  accesses to one field).
\<close>

type_synonym ptr = "64 word"

record list_node =
  list_n :: ptr
  list_p :: ptr

type_synonym heap = "ptr \<rightharpoonup> list_node"

text \<open>A slot is one pointer field of one node: \<open>&x->n\<close> or \<open>&x->p\<close>.\<close>

datatype slot = Slot_n ptr | Slot_p ptr

fun load :: "heap \<Rightarrow> slot \<Rightarrow> ptr option" where
  "load h (Slot_n a) = map_option list_n (h a)"
| "load h (Slot_p a) = map_option list_p (h a)"

fun store :: "heap \<Rightarrow> slot \<Rightarrow> ptr \<Rightarrow> heap option" where
  "store h (Slot_n a) v = (case h a of None \<Rightarrow> None | Some nd \<Rightarrow> Some (h(a \<mapsto> nd\<lparr>list_n := v\<rparr>)))"
| "store h (Slot_p a) v = (case h a of None \<Rightarrow> None | Some nd \<Rightarrow> Some (h(a \<mapsto> nd\<lparr>list_p := v\<rparr>)))"

definition NULL :: ptr where
  "NULL = 0"

text \<open>\<open>#define ILH { .n = (struct list *)1, .p = (struct list *)2 }\<close>\<close>

definition ILH :: list_node where
  "ILH = \<lparr>list_n = 1, list_p = 2\<rparr>"

text \<open>\<open>#define LLIST_BUSY ((struct list *)1)\<close>\<close>

definition LLIST_BUSY :: ptr where
  "LLIST_BUSY = 1"

section \<open>The unsynchronized macros\<close>

text \<open>\<open>#define LIST_INIT(l) ((l)->n = (l)->p = (l))\<close>: the inner assignment to \<open>p\<close> comes
  first, its value \<open>l\<close> is then assigned to \<open>n\<close>; the value of the expression is \<open>l\<close>.\<close>

definition LIST_INIT :: "heap \<Rightarrow> ptr \<Rightarrow> (heap \<times> ptr) option" where
  "LIST_INIT h l = do {
     h1 \<leftarrow> store h (Slot_p l) l;
     h2 \<leftarrow> store h1 (Slot_n l) l;
     Some (h2, l)
   }"

text \<open>
  \<open>#define LIST_ADD(lh, el) ({ (el)->n = (lh)->n; (el)->n->p = (lh)->n = (el); (el)->p = (lh); (el); })\<close>

  In the second statement the operands of the outer assignment are unsequenced: the
  left operand reads \<open>(el)->n\<close> and the right operand writes \<open>(lh)->n\<close>. For \<open>el = lh\<close>
  these are the same field, which C leaves undefined, so the model gives \<open>None\<close>
  there. For \<open>el \<noteq> lh\<close> the two orders agree.
\<close>

definition LIST_ADD :: "heap \<Rightarrow> ptr \<Rightarrow> ptr \<Rightarrow> (heap \<times> ptr) option" where
  "LIST_ADD h lh el = do {
     lhn \<leftarrow> load h (Slot_n lh);
     h1 \<leftarrow> store h (Slot_n el) lhn;
     if el = lh then None else do {
       eln \<leftarrow> load h1 (Slot_n el);
       h2 \<leftarrow> store h1 (Slot_n lh) el;
       h3 \<leftarrow> store h2 (Slot_p eln) el;
       h4 \<leftarrow> store h3 (Slot_p el) lh;
       Some (h4, el)
     }
   }"

text \<open>
  \<open>#define LIST_ADDQ(lh, el) ({ (el)->p = (lh)->p; (el)->p->n = (lh)->p = (el); (el)->n = (lh); (el); })\<close>
\<close>

definition LIST_ADDQ :: "heap \<Rightarrow> ptr \<Rightarrow> ptr \<Rightarrow> (heap \<times> ptr) option" where
  "LIST_ADDQ h lh el = do {
     lhp \<leftarrow> load h (Slot_p lh);
     h1 \<leftarrow> store h (Slot_p el) lhp;
     if el = lh then None else do {
       elp \<leftarrow> load h1 (Slot_p el);
       h2 \<leftarrow> store h1 (Slot_p lh) el;
       h3 \<leftarrow> store h2 (Slot_n elp) el;
       h4 \<leftarrow> store h3 (Slot_n el) lh;
       Some (h4, el)
     }
   }"

text \<open>
  \<open>#define LIST_DEL(el) ({ typeof(el) __ret = (el); (el)->n->p = (el)->p; (el)->p->n = (el)->n; (__ret); })\<close>

  The second statement reads \<open>(el)->p\<close> and \<open>(el)->n\<close> again, after the first store.
\<close>

definition LIST_DEL :: "heap \<Rightarrow> ptr \<Rightarrow> (heap \<times> ptr) option" where
  "LIST_DEL h el = do {
     eln \<leftarrow> load h (Slot_n el);
     elp \<leftarrow> load h (Slot_p el);
     h1 \<leftarrow> store h (Slot_p eln) elp;
     elp' \<leftarrow> load h1 (Slot_p el);
     eln' \<leftarrow> load h1 (Slot_n el);
     h2 \<leftarrow> store h1 (Slot_n elp') eln';
     Some (h2, el)
   }"

text \<open>
  \<^verbatim>\<open>
  #define LIST_DEL_INIT(el) ({
        typeof(el) __ret = (el);
        typeof(__ret->n) __n = __ret->n;
        typeof(__ret->p) __p = __ret->p;
        __n->p = __p; __p->n = __n;
        __ret->n = __ret->p = __ret;
        __ret;
  })
  \<close>
\<close>

definition LIST_DEL_INIT :: "heap \<Rightarrow> ptr \<Rightarrow> (heap \<times> ptr) option" where
  "LIST_DEL_INIT h el = do {
     n \<leftarrow> load h (Slot_n el);
     p \<leftarrow> load h (Slot_p el);
     h1 \<leftarrow> store h (Slot_p n) p;
     h2 \<leftarrow> store h1 (Slot_n p) n;
     h3 \<leftarrow> store h2 (Slot_p el) el;
     h4 \<leftarrow> store h3 (Slot_n el) el;
     Some (h4, el)
   }"

text \<open>
  \<open>#define LIST_ELEM(lh, pt, el) ((pt)(((void *)(lh)) - ((void *)&((pt)NULL)->el)))\<close>:
  the address of the structure that holds the node \<open>lh\<close> as its member \<open>el\<close>; \<open>off\<close> is
  the offset of that member, \<open>&((pt)NULL)->el\<close>.
\<close>

definition LIST_ELEM :: "ptr \<Rightarrow> ptr \<Rightarrow> ptr" where
  "LIST_ELEM lh off = lh - off"

text \<open>\<open>&item->member\<close>\<close>

definition member_addr :: "ptr \<Rightarrow> ptr \<Rightarrow> ptr" where
  "member_addr item off = item + off"

text \<open>\<open>#define LIST_ISEMPTY(lh) ((lh)->n == (lh))\<close>\<close>

definition LIST_ISEMPTY :: "heap \<Rightarrow> ptr \<Rightarrow> bool option" where
  "LIST_ISEMPTY h lh = do { lhn \<leftarrow> load h (Slot_n lh); Some (lhn = lh) }"

text \<open>\<open>#define LIST_ADDED(el) ((el)->n != (el))\<close>\<close>

definition LIST_ADDED :: "heap \<Rightarrow> ptr \<Rightarrow> bool option" where
  "LIST_ADDED h el = do { eln \<leftarrow> load h (Slot_n el); Some (eln \<noteq> el) }"


text \<open>
  A loop either returns, or runs into undefined behaviour, or is still running when the
  fuel is used up. Every test of a loop condition costs one unit of fuel.
\<close>

datatype 'a outcome = OutOfFuel | Undefined | Done 'a

text \<open>
  \<^verbatim>\<open>
  #define list_for_each_entry_from(item, list_head, member)
        for ( ; &item->member != (list_head);
             item = LIST_ELEM(item->member.n, typeof(item), member))
  \<close>
  The body of the loop belongs to the caller; here it records the item it is run with
  and leaves the list alone, so that the result is the sequence of visited items.
\<close>

fun list_for_each_entry_from :: "nat \<Rightarrow> heap \<Rightarrow> ptr \<Rightarrow> ptr \<Rightarrow> ptr \<Rightarrow> ptr list outcome" where
  "list_for_each_entry_from 0 h item list_head off = OutOfFuel"
| "list_for_each_entry_from (Suc k) h item list_head off =
     (if member_addr item off \<noteq> list_head then
        (case load h (Slot_n (member_addr item off)) of
           None \<Rightarrow> Undefined
         | Some nx \<Rightarrow>
             (case list_for_each_entry_from k h (LIST_ELEM nx off) list_head off of
                Done items \<Rightarrow> Done (item # items)
              | OutOfFuel \<Rightarrow> OutOfFuel
              | Undefined \<Rightarrow> Undefined))
      else Done [])"

text \<open>
  \<^verbatim>\<open>
  #define list_for_each_entry(item, list_head, member)
        for (item = LIST_ELEM((list_head)->n, typeof(item), member);
             &item->member != (list_head);
             item = LIST_ELEM(item->member.n, typeof(item), member))
  \<close>
\<close>

definition list_for_each_entry :: "nat \<Rightarrow> heap \<Rightarrow> ptr \<Rightarrow> ptr \<Rightarrow> ptr list outcome" where
  "list_for_each_entry k h list_head off =
     (case load h (Slot_n list_head) of
        None \<Rightarrow> Undefined
      | Some nx \<Rightarrow> list_for_each_entry_from k h (LIST_ELEM nx off) list_head off)"

section \<open>The locked macros\<close>

text \<open>
  The locked macros are modelled as one thread runs them, with no other thread touching
  the list. Besides the heap, the state carries the sequence of the thread's memory
  events, so that the order of its exchanges, stores and barriers can be stated.
  An event \<open>Xchg s v old\<close> is an atomic exchange that wrote \<open>v\<close> to the slot \<open>s\<close> and
  read \<open>old\<close>; \<open>Write s v\<close> is a plain store.
\<close>

datatype event = Xchg slot ptr ptr | Write slot ptr | Barrier

type_synonym lstate = "heap \<times> event list"

text \<open>
  Modelled from the spec: \<open>_HA_ATOMIC_XCHG\<close> of \<open>common/hathreads.h\<close>, which is not
  part of the sources at hand. The spec: "\<open>atomic_exchange(slot_ref, new_value) -> old_value\<close>:
  replaces a pointer-sized memory location and returns its previous contents as one
  indivisible step".
\<close>

definition HA_ATOMIC_XCHG :: "lstate \<Rightarrow> slot \<Rightarrow> ptr \<Rightarrow> (ptr \<times> lstate) option" where
  "HA_ATOMIC_XCHG st s v = (case st of (h, tr) \<Rightarrow> do {
     old \<leftarrow> load h s;
     h' \<leftarrow> store h s v;
     Some (old, (h', tr @ [Xchg s v old]))
   })"

text \<open>
  Modelled from the spec: \<open>__ha_barrier_store\<close> of \<open>common/hathreads.h\<close>, which is not
  part of the sources at hand. The spec: "\<open>store_barrier()\<close>: prevents memory-write
  reordering across the call; must be callable with no side effects on uncontended
  single-threaded paths". It leaves the heap as it is.
\<close>

definition ha_barrier_store :: "lstate \<Rightarrow> lstate" where
  "ha_barrier_store st = (case st of (h, tr) \<Rightarrow> (h, tr @ [Barrier]))"

text \<open>A plain assignment to a pointer field inside a locked macro, such as \<open>(lh)->n = n\<close>.\<close>

definition assign :: "lstate \<Rightarrow> slot \<Rightarrow> ptr \<Rightarrow> lstate option" where
  "assign st s v = (case st of (h, tr) \<Rightarrow> do {
     h' \<leftarrow> store h s v;
     Some (h', tr @ [Write s v])
   })"

text \<open>
  One pass through the body of \<open>while (1) { ... }\<close> ends in \<open>continue\<close> or in \<open>break\<close>;
  \<open>break\<close> carries the value the macro yields.
\<close>

datatype 'r iter = Continue lstate | Break lstate 'r

fun while_1 :: "nat \<Rightarrow> (lstate \<Rightarrow> 'r iter option) \<Rightarrow> lstate \<Rightarrow> (lstate \<times> 'r) outcome" where
  "while_1 0 body st = OutOfFuel"
| "while_1 (Suc k) body st =
     (case body st of
        None \<Rightarrow> Undefined
      | Some (Continue st') \<Rightarrow> while_1 k body st'
      | Some (Break st' r) \<Rightarrow> Done (st', r))"

text \<open>
  \<^verbatim>\<open>
  #define LIST_ADD_LOCKED(lh, el)
        do {
                while (1) {
                        struct list *n;
                        struct list *p;
                        n = _HA_ATOMIC_XCHG(&(lh)->n, LLIST_BUSY);
                        if (n == LLIST_BUSY)
                                continue;
                        p = _HA_ATOMIC_XCHG(&n->p, LLIST_BUSY);
                        if (p == LLIST_BUSY) {
                                (lh)->n = n;
                                __ha_barrier_store();
                                continue;
                        }
                        (el)->n = n;
                        (el)->p = p;
                        __ha_barrier_store();
                        n->p = (el);
                        __ha_barrier_store();
                        p->n = (el);
                        __ha_barrier_store();
                        break;
                }
        } while (0)
  \<close>
\<close>

definition LIST_ADD_LOCKED_body :: "ptr \<Rightarrow> ptr \<Rightarrow> lstate \<Rightarrow> unit iter option" where
  "LIST_ADD_LOCKED_body lh el st = do {
     (n, st1) \<leftarrow> HA_ATOMIC_XCHG st (Slot_n lh) LLIST_BUSY;
     if n = LLIST_BUSY then Some (Continue st1)
     else do {
       (p, st2) \<leftarrow> HA_ATOMIC_XCHG st1 (Slot_p n) LLIST_BUSY;
       if p = LLIST_BUSY then do {
         st3 \<leftarrow> assign st2 (Slot_n lh) n;
         Some (Continue (ha_barrier_store st3))
       } else do {
         st3 \<leftarrow> assign st2 (Slot_n el) n;
         st4 \<leftarrow> assign st3 (Slot_p el) p;
         st5 \<leftarrow> assign (ha_barrier_store st4) (Slot_p n) el;
         st6 \<leftarrow> assign (ha_barrier_store st5) (Slot_n p) el;
         Some (Break (ha_barrier_store st6) ())
       }
     }
   }"

definition LIST_ADD_LOCKED :: "nat \<Rightarrow> lstate \<Rightarrow> ptr \<Rightarrow> ptr \<Rightarrow> (lstate \<times> unit) outcome" where
  "LIST_ADD_LOCKED k st lh el = while_1 k (LIST_ADD_LOCKED_body lh el) st"

text \<open>
  \<^verbatim>\<open>
  #define LIST_ADDQ_LOCKED(lh, el)
        do {
                while (1) {
                        struct list *n;
                        struct list *p;
                        p = _HA_ATOMIC_XCHG(&(lh)->p, LLIST_BUSY);
                        if (p == LLIST_BUSY)
                                continue;
                        n = _HA_ATOMIC_XCHG(&p->n, LLIST_BUSY);
                        if (n == LLIST_BUSY) {
                                (lh)->p = p;
                                __ha_barrier_store();
                                continue;
                        }
                        (el)->n = n;
                        (el)->p = p;
                        __ha_barrier_store();
                        p->n = (el);
                        __ha_barrier_store();
                        n->p = (el);
                        __ha_barrier_store();
                        break;
                }
        } while (0)
  \<close>
\<close>

definition LIST_ADDQ_LOCKED_body :: "ptr \<Rightarrow> ptr \<Rightarrow> lstate \<Rightarrow> unit iter option" where
  "LIST_ADDQ_LOCKED_body lh el st = do {
     (p, st1) \<leftarrow> HA_ATOMIC_XCHG st (Slot_p lh) LLIST_BUSY;
     if p = LLIST_BUSY then Some (Continue st1)
     else do {
       (n, st2) \<leftarrow> HA_ATOMIC_XCHG st1 (Slot_n p) LLIST_BUSY;
       if n = LLIST_BUSY then do {
         st3 \<leftarrow> assign st2 (Slot_p lh) p;
         Some (Continue (ha_barrier_store st3))
       } else do {
         st3 \<leftarrow> assign st2 (Slot_n el) n;
         st4 \<leftarrow> assign st3 (Slot_p el) p;
         st5 \<leftarrow> assign (ha_barrier_store st4) (Slot_n p) el;
         st6 \<leftarrow> assign (ha_barrier_store st5) (Slot_p n) el;
         Some (Break (ha_barrier_store st6) ())
       }
     }
   }"

definition LIST_ADDQ_LOCKED :: "nat \<Rightarrow> lstate \<Rightarrow> ptr \<Rightarrow> ptr \<Rightarrow> (lstate \<times> unit) outcome" where
  "LIST_ADDQ_LOCKED k st lh el = while_1 k (LIST_ADDQ_LOCKED_body lh el) st"

text \<open>
  \<^verbatim>\<open>
  #define LIST_DEL_LOCKED(el)
        do {
                while (1) {
                        struct list *n, *n2;
                        struct list *p, *p2 = NULL;
                        n = _HA_ATOMIC_XCHG(&(el)->n, LLIST_BUSY);
                        if (n == LLIST_BUSY)
                                continue;
                        p = _HA_ATOMIC_XCHG(&(el)->p, LLIST_BUSY);
                        if (p == LLIST_BUSY) {
                                (el)->n = n;
                                __ha_barrier_store();
                                continue;
                        }
                        if (p != (el)) {
                                p2 = _HA_ATOMIC_XCHG(&p->n, LLIST_BUSY);
                                if (p2 == LLIST_BUSY) {
                                        (el)->p = p;
                                        (el)->n = n;
                                        __ha_barrier_store();
                                        continue;
                                }
                        }
                        if (n != (el)) {
                                n2 = _HA_ATOMIC_XCHG(&n->p, LLIST_BUSY);
                                if (n2 == LLIST_BUSY) {
                                        if (p2 != NULL)
                                                p->n = p2;
                                        (el)->p = p;
                                        (el)->n = n;
                                        __ha_barrier_store();
                                        continue;
                                }
                        }
                        n->p = p;
                        p->n = n;
                        __ha_barrier_store();
                        (el)->p = (el);
                        (el)->n = (el);
                        __ha_barrier_store();
                        break;
                }
        } while (0)
  \<close>
  The body is cut in three at its two \<open>if\<close> statements: the part from \<open>n->p = p\<close> on,
  the part from \<open>if (n != (el))\<close> on, and the whole body.
\<close>

definition LIST_DEL_LOCKED_rewire :: "ptr \<Rightarrow> ptr \<Rightarrow> ptr \<Rightarrow> lstate \<Rightarrow> unit iter option" where
  "LIST_DEL_LOCKED_rewire el n p st = do {
     st1 \<leftarrow> assign st (Slot_p n) p;
     st2 \<leftarrow> assign st1 (Slot_n p) n;
     st3 \<leftarrow> assign (ha_barrier_store st2) (Slot_p el) el;
     st4 \<leftarrow> assign st3 (Slot_n el) el;
     Some (Break (ha_barrier_store st4) ())
   }"

definition LIST_DEL_LOCKED_succ :: "ptr \<Rightarrow> ptr \<Rightarrow> ptr \<Rightarrow> ptr \<Rightarrow> lstate \<Rightarrow> unit iter option" where
  "LIST_DEL_LOCKED_succ el n p p2 st =
     (if n \<noteq> el then do {
        (n2, st1) \<leftarrow> HA_ATOMIC_XCHG st (Slot_p n) LLIST_BUSY;
        if n2 = LLIST_BUSY then do {
          st2 \<leftarrow> (if p2 \<noteq> NULL then assign st1 (Slot_n p) p2 else Some st1);
          st3 \<leftarrow> assign st2 (Slot_p el) p;
          st4 \<leftarrow> assign st3 (Slot_n el) n;
          Some (Continue (ha_barrier_store st4))
        } else LIST_DEL_LOCKED_rewire el n p st1
      } else LIST_DEL_LOCKED_rewire el n p st)"

definition LIST_DEL_LOCKED_body :: "ptr \<Rightarrow> lstate \<Rightarrow> unit iter option" where
  "LIST_DEL_LOCKED_body el st = do {
     (n, st1) \<leftarrow> HA_ATOMIC_XCHG st (Slot_n el) LLIST_BUSY;
     if n = LLIST_BUSY then Some (Continue st1)
     else do {
       (p, st2) \<leftarrow> HA_ATOMIC_XCHG st1 (Slot_p el) LLIST_BUSY;
       if p = LLIST_BUSY then do {
         st3 \<leftarrow> assign st2 (Slot_n el) n;
         Some (Continue (ha_barrier_store st3))
       } else if p \<noteq> el then do {
         (p2, st3) \<leftarrow> HA_ATOMIC_XCHG st2 (Slot_n p) LLIST_BUSY;
         if p2 = LLIST_BUSY then do {
           st4 \<leftarrow> assign st3 (Slot_p el) p;
           st5 \<leftarrow> assign st4 (Slot_n el) n;
           Some (Continue (ha_barrier_store st5))
         } else LIST_DEL_LOCKED_succ el n p p2 st3
       } else LIST_DEL_LOCKED_succ el n p NULL st2
     }
   }"

definition LIST_DEL_LOCKED :: "nat \<Rightarrow> lstate \<Rightarrow> ptr \<Rightarrow> (lstate \<times> unit) outcome" where
  "LIST_DEL_LOCKED k st el = while_1 k (LIST_DEL_LOCKED_body el) st"

text \<open>
  \<^verbatim>\<open>
  #define LIST_POP_LOCKED(lh, pt, el)
        ({
                 void *_ret;
                 while (1) {
                         struct list *n, *n2;
                         struct list *p, *p2;
                         n = _HA_ATOMIC_XCHG(&(lh)->n, LLIST_BUSY);
                         if (n == LLIST_BUSY)
                                 continue;
                         if (n == (lh)) {
                                 (lh)->n = lh;
                                 __ha_barrier_store();
                                 _ret = NULL;
                                 break;
                         }
                         p = _HA_ATOMIC_XCHG(&n->p, LLIST_BUSY);
                         if (p == LLIST_BUSY) {
                                 (lh)->n = n;
                                 __ha_barrier_store();
                                 continue;
                         }
                         n2 = _HA_ATOMIC_XCHG(&n->n, LLIST_BUSY);
                         if (n2 == LLIST_BUSY) {
                                 n->p = p;
                                 __ha_barrier_store();
                                 (lh)->n = n;
                                 __ha_barrier_store();
                                 continue;
                         }
                         p2 = _HA_ATOMIC_XCHG(&n2->p, LLIST_BUSY);
                         if (p2 == LLIST_BUSY) {
                                 n->n = n2;
                                 n->p = p;
                                 __ha_barrier_store();
                                 (lh)->n = n;
                                 __ha_barrier_store();
                                 continue;
                         }
                         (lh)->n = n2;
                         (n2)->p = (lh);
                         __ha_barrier_store();
                         (n)->p = (n);
                         (n)->n = (n);
                         __ha_barrier_store();
                         _ret = LIST_ELEM(n, pt, el);
                         break;
                 }
                 (_ret);
         })
  \<close>
  The value is a \<open>void *\<close>: \<open>NULL\<close>, or the structure holding the popped node at the
  offset \<open>off\<close> of the member \<open>el\<close>.
\<close>

definition LIST_POP_LOCKED_body :: "ptr \<Rightarrow> ptr \<Rightarrow> lstate \<Rightarrow> ptr iter option" where
  "LIST_POP_LOCKED_body lh off st = do {
     (n, st1) \<leftarrow> HA_ATOMIC_XCHG st (Slot_n lh) LLIST_BUSY;
     if n = LLIST_BUSY then Some (Continue st1)
     else if n = lh then do {
       st2 \<leftarrow> assign st1 (Slot_n lh) lh;
       Some (Break (ha_barrier_store st2) NULL)
     } else do {
       (p, st2) \<leftarrow> HA_ATOMIC_XCHG st1 (Slot_p n) LLIST_BUSY;
       if p = LLIST_BUSY then do {
         st3 \<leftarrow> assign st2 (Slot_n lh) n;
         Some (Continue (ha_barrier_store st3))
       } else do {
         (n2, st3) \<leftarrow> HA_ATOMIC_XCHG st2 (Slot_n n) LLIST_BUSY;
         if n2 = LLIST_BUSY then do {
           st4 \<leftarrow> assign st3 (Slot_p n) p;
           st5 \<leftarrow> assign (ha_barrier_store st4) (Slot_n lh) n;
           Some (Continue (ha_barrier_store st5))
         } else do {
           (p2, st4) \<leftarrow> HA_ATOMIC_XCHG st3 (Slot_p n2) LLIST_BUSY;
           if p2 = LLIST_BUSY then do {
             st5 \<leftarrow> assign st4 (Slot_n n) n2;
             st6 \<leftarrow> assign st5 (Slot_p n) p;
             st7 \<leftarrow> assign (ha_barrier_store st6) (Slot_n lh) n;
             Some (Continue (ha_barrier_store st7))
           } else do {
             st5 \<leftarrow> assign st4 (Slot_n lh) n2;
             st6 \<leftarrow> assign st5 (Slot_p n2) lh;
             st7 \<leftarrow> assign (ha_barrier_store st6) (Slot_p n) n;
             st8 \<leftarrow> assign st7 (Slot_n n) n;
             Some (Break (ha_barrier_store st8) (LIST_ELEM n off))
           }
         }
       }
     }
   }"

definition LIST_POP_LOCKED :: "nat \<Rightarrow> lstate \<Rightarrow> ptr \<Rightarrow> ptr \<Rightarrow> (lstate \<times> ptr) outcome" where
  "LIST_POP_LOCKED k st lh off = while_1 k (LIST_POP_LOCKED_body lh off) st"

section \<open>Well-formed lists\<close>

abbreviation N :: "heap \<Rightarrow> ptr \<Rightarrow> ptr option" where
  "N h x \<equiv> load h (Slot_n x)"

abbreviation P :: "heap \<Rightarrow> ptr \<Rightarrow> ptr option" where
  "P h x \<equiv> load h (Slot_p x)"

text \<open>The nodes reachable from \<open>head\<close> by following \<open>n\<close>, \<open>head\<close> included.\<close>

inductive_set reach :: "heap \<Rightarrow> ptr \<Rightarrow> ptr set" for h :: heap and head :: ptr where
  reach_head: "head \<in> reach h head"
| reach_next: "x \<in> reach h head \<Longrightarrow> N h x = Some y \<Longrightarrow> y \<in> reach h head"

text \<open>
  The invariant of a doubly-linked circular list: \<open>head->n->p == head\<close>, and
  \<open>x->n->p == x\<close> and \<open>x->p->n == x\<close> for every node \<open>x\<close> reachable from \<open>head\<close>.
\<close>

definition dl_inv :: "heap \<Rightarrow> ptr \<Rightarrow> bool" where
  "dl_inv h head \<longleftrightarrow>
     (\<exists>a. N h head = Some a \<and> P h a = Some head) \<and>
     (\<forall>x\<in>reach h head.
        (\<exists>a. N h x = Some a \<and> P h a = Some x) \<and> (\<exists>b. P h x = Some b \<and> N h b = Some x))"

text \<open>The same, and the predecessor of a reachable node is reachable as well.\<close>

definition ring_inv :: "heap \<Rightarrow> ptr \<Rightarrow> bool" where
  "ring_inv h head \<longleftrightarrow>
     (\<forall>x\<in>reach h head. \<exists>a b. N h x = Some a \<and> P h x = Some b \<and>
        P h a = Some x \<and> N h b = Some x \<and> b \<in> reach h head)"

text \<open>
  A node is linked when its two neighbours exist and point back at it. This is what
  the invariant gives for every reachable node.
\<close>

definition linked :: "heap \<Rightarrow> ptr \<Rightarrow> bool" where
  "linked h el \<longleftrightarrow>
     (case h el of
        None \<Rightarrow> False
      | Some nd \<Rightarrow> P h (list_n nd) = Some el \<and> N h (list_p nd) = Some el)"

text \<open>
  The heaps that arise from a head set up with \<open>LIST_INIT\<close> by calls of \<open>LIST_ADD\<close>,
  \<open>LIST_ADDQ\<close>, \<open>LIST_DEL\<close> and \<open>LIST_DEL_INIT\<close>, where
  \<^item> \<open>LIST_ADD\<close> and \<open>LIST_ADDQ\<close> insert, at the head or at any node on the list, a node
    that is not on the list;
  \<^item> \<open>LIST_DEL\<close> removes a node on the list, the head itself only while the list is
    empty;
  \<^item> \<open>LIST_DEL_INIT\<close> removes a node on the list, which may be the head;
  \<^item> any other call of the four macros leaves every node on the list as it was (a call
    on nodes of another list, say).
  A node is on the list when it is reachable from the head.
\<close>

inductive built :: "ptr \<Rightarrow> heap \<Rightarrow> bool" for head :: ptr where
  built_init: "LIST_INIT h0 head = Some (h, r) \<Longrightarrow> built head h"
| built_add: "built head h \<Longrightarrow> lh \<in> reach h head \<Longrightarrow> el \<notin> reach h head \<Longrightarrow>
     LIST_ADD h lh el = Some (h', r) \<Longrightarrow> built head h'"
| built_addq: "built head h \<Longrightarrow> lh \<in> reach h head \<Longrightarrow> el \<notin> reach h head \<Longrightarrow>
     LIST_ADDQ h lh el = Some (h', r) \<Longrightarrow> built head h'"
| built_del: "built head h \<Longrightarrow> el \<in> reach h head \<Longrightarrow> el \<noteq> head \<or> N h head = Some head \<Longrightarrow>
     LIST_DEL h el = Some (h', r) \<Longrightarrow> built head h'"
| built_del_init: "built head h \<Longrightarrow> el \<in> reach h head \<Longrightarrow>
     LIST_DEL_INIT h el = Some (h', r) \<Longrightarrow> built head h'"
| built_other: "built head h \<Longrightarrow>
     LIST_ADD h lh el = Some (h', r) \<or> LIST_ADDQ h lh el = Some (h', r) \<or>
     LIST_DEL h el = Some (h', r) \<or> LIST_DEL_INIT h el = Some (h', r) \<Longrightarrow>
     \<forall>x\<in>reach h head. h' x = h x \<Longrightarrow> built head h'"

text \<open>\<open>LIST_DEL\<close> followed by \<open>LIST_INIT\<close> on the removed node, as two separate calls.\<close>

definition remove_then_reinit :: "heap \<Rightarrow> ptr \<Rightarrow> (heap \<times> ptr) option" where
  "remove_then_reinit h el = do { (h1, r) \<leftarrow> LIST_DEL h el; LIST_INIT h1 r }"

fun slot_addr :: "slot \<Rightarrow> ptr" where
  "slot_addr (Slot_n a) = a"
| "slot_addr (Slot_p a) = a"

text \<open>The heap after a store that succeeds; the heap itself where the store has no object.\<close>

definition upd :: "heap \<Rightarrow> slot \<Rightarrow> ptr \<Rightarrow> heap" where
  "upd h s v = (case store h s v of None \<Rightarrow> h | Some h' \<Rightarrow> h')"

section \<open>Sample heaps\<close>

text \<open>
  Three nodes at the addresses 16, 32 and 48, with 16 as the head: not yet set up
  (\<open>h_fresh\<close>), after \<open>LIST_INIT(16)\<close> (\<open>h_init\<close>), then \<open>LIST_ADD(16, 32)\<close>
  (\<open>h_add\<close>), then \<open>LIST_ADDQ(16, 48)\<close> (\<open>h_addq\<close>), then \<open>LIST_DEL(32)\<close> (\<open>h_del\<close>).
\<close>

definition h_fresh :: heap where
  "h_fresh = [16 \<mapsto> \<lparr>list_n = 0, list_p = 0\<rparr>, 32 \<mapsto> \<lparr>list_n = 0, list_p = 0\<rparr>,
              48 \<mapsto> \<lparr>list_n = 0, list_p = 0\<rparr>]"

definition h_init :: heap where
  "h_init = [16 \<mapsto> \<lparr>list_n = 16, list_p = 16\<rparr>, 32 \<mapsto> \<lparr>list_n = 0, list_p = 0\<rparr>,
             48 \<mapsto> \<lparr>list_n = 0, list_p = 0\<rparr>]"

definition h_add :: heap where
  "h_add = [16 \<mapsto> \<lparr>list_n = 32, list_p = 32\<rparr>, 32 \<mapsto> \<lparr>list_n = 16, list_p = 16\<rparr>,
            48 \<mapsto> \<lparr>list_n = 0, list_p = 0\<rparr>]"

definition h_addq :: heap where
  "h_addq = [16 \<mapsto> \<lparr>list_n = 32, list_p = 48\<rparr>, 32 \<mapsto> \<lparr>list_n = 48, list_p = 16\<rparr>,
             48 \<mapsto> \<lparr>list_n = 16, list_p = 32\<rparr>]"

definition h_del :: heap where
  "h_del = [16 \<mapsto> \<lparr>list_n = 48, list_p = 48\<rparr>, 32 \<mapsto> \<lparr>list_n = 48, list_p = 16\<rparr>,
            48 \<mapsto> \<lparr>list_n = 16, list_p = 16\<rparr>]"

text \<open>
  Misuse. \<open>h_add_twice\<close>: \<open>LIST_ADD(16, 32)\<close> once more on \<open>h_add\<close>, where 32 is on
  the list already. \<open>h_del_head\<close>: \<open>LIST_DEL(16)\<close> on \<open>h_add\<close>, which removes the head.
  \<open>h_del2\<close> and \<open>h_del3\<close>: \<open>LIST_DEL(48)\<close> on \<open>h_del\<close>, and then \<open>LIST_DEL(32)\<close> a
  second time, through the pointers the first removal left in node 32.
\<close>

definition h_add_twice :: heap where
  "h_add_twice = [16 \<mapsto> \<lparr>list_n = 32, list_p = 32\<rparr>, 32 \<mapsto> \<lparr>list_n = 32, list_p = 16\<rparr>,
                  48 \<mapsto> \<lparr>list_n = 0, list_p = 0\<rparr>]"

definition h_del_head :: heap where
  "h_del_head = [16 \<mapsto> \<lparr>list_n = 32, list_p = 32\<rparr>, 32 \<mapsto> \<lparr>list_n = 32, list_p = 32\<rparr>,
                 48 \<mapsto> \<lparr>list_n = 0, list_p = 0\<rparr>]"

definition h_del2 :: heap where
  "h_del2 = [16 \<mapsto> \<lparr>list_n = 16, list_p = 16\<rparr>, 32 \<mapsto> \<lparr>list_n = 48, list_p = 16\<rparr>,
             48 \<mapsto> \<lparr>list_n = 16, list_p = 16\<rparr>]"

definition h_del3 :: heap where
  "h_del3 = [16 \<mapsto> \<lparr>list_n = 48, list_p = 16\<rparr>, 32 \<mapsto> \<lparr>list_n = 48, list_p = 16\<rparr>,
             48 \<mapsto> \<lparr>list_n = 16, list_p = 16\<rparr>]"

text \<open>\<open>h_head_out\<close>: \<open>LIST_DEL_INIT(16)\<close> on \<open>h_add\<close>, which takes the head off its list.\<close>

definition h_head_out :: heap where
  "h_head_out = [16 \<mapsto> \<lparr>list_n = 16, list_p = 16\<rparr>, 32 \<mapsto> \<lparr>list_n = 32, list_p = 32\<rparr>,
                 48 \<mapsto> \<lparr>list_n = 0, list_p = 0\<rparr>]"

text \<open>A head that holds the static initializer \<open>ILH\<close>, and a node to insert.\<close>

definition h_ilh :: heap where
  "h_ilh = [16 \<mapsto> ILH, 32 \<mapsto> \<lparr>list_n = 0, list_p = 0\<rparr>]"

section \<open>Loads and stores\<close>

lemma load_store:
  "store h s v = Some h' \<Longrightarrow> load h' s' = (if s' = s then Some v else load h s')"
  by (cases s; cases s') (auto split: option.splits)

lemma store_dom: "store h s v = Some h' \<Longrightarrow> dom h' = dom h"
  by (cases s) (auto split: option.splits if_splits)

lemma store_defined: "slot_addr s \<in> dom h \<Longrightarrow> \<exists>h'. store h s v = Some h'"
  by (cases s) auto

lemma load_defined: "(\<exists>v. load h s = Some v) \<longleftrightarrow> slot_addr s \<in> dom h"
  by (cases s) auto

lemma heap_eqI: "(\<And>s. load h s = load h' s) \<Longrightarrow> h = h'"
proof
  fix a assume H: "\<And>s. load h s = load h' s"
  from H[of "Slot_n a"] H[of "Slot_p a"] show "h a = h' a"
    by (cases "h a"; cases "h' a") auto
qed

declare load.simps [simp del] store.simps [simp del]

section \<open>What the unsynchronized macros store\<close>

lemma LIST_INIT_loads:
  assumes "l \<in> dom h"
  shows "\<exists>h'. LIST_INIT h l = Some (h', l) \<and> dom h' = dom h \<and>
    (\<forall>s. load h' s = (if s = Slot_n l then Some l else if s = Slot_p l then Some l else load h s))"
proof -
  obtain h1 where 1: "store h (Slot_p l) l = Some h1" using store_defined[of "Slot_p l" h] assms by auto
  have d1: "dom h1 = dom h" using store_dom[OF 1] .
  obtain h2 where 2: "store h1 (Slot_n l) l = Some h2" using store_defined[of "Slot_n l" h1] assms d1 by auto
  have d2: "dom h2 = dom h" using store_dom[OF 2] d1 by simp
  have "LIST_INIT h l = Some (h2, l)" by (simp add: LIST_INIT_def 1 2)
  moreover have "\<forall>s. load h2 s = (if s = Slot_n l then Some l else if s = Slot_p l then Some l else load h s)"
    by (simp add: load_store[OF 2] load_store[OF 1])
  ultimately show ?thesis using d2 by blast
qed

lemma LIST_ADD_loads:
  assumes "load h (Slot_n lh) = Some f" "el \<in> dom h" "f \<in> dom h" "el \<noteq> lh"
  shows "\<exists>h'. LIST_ADD h lh el = Some (h', el) \<and> dom h' = dom h \<and>
    (\<forall>s. load h' s = (if s = Slot_p el then Some lh else if s = Slot_p f then Some el
         else if s = Slot_n lh then Some el else if s = Slot_n el then Some f else load h s))"
proof -
  have lhd: "lh \<in> dom h" using assms(1) load_defined[of h "Slot_n lh"] by auto
  obtain h1 where 1: "store h (Slot_n el) f = Some h1" using store_defined[of "Slot_n el" h] assms by auto
  have d1: "dom h1 = dom h" using store_dom[OF 1] .
  have l1: "load h1 (Slot_n el) = Some f" by (simp add: load_store[OF 1])
  obtain h2 where 2: "store h1 (Slot_n lh) el = Some h2" using store_defined[of "Slot_n lh" h1] lhd d1 by auto
  have d2: "dom h2 = dom h" using store_dom[OF 2] d1 by simp
  obtain h3 where 3: "store h2 (Slot_p f) el = Some h3" using store_defined[of "Slot_p f" h2] assms d2 by auto
  have d3: "dom h3 = dom h" using store_dom[OF 3] d2 by simp
  obtain h4 where 4: "store h3 (Slot_p el) lh = Some h4" using store_defined[of "Slot_p el" h3] assms d3 by auto
  have d4: "dom h4 = dom h" using store_dom[OF 4] d3 by simp
  have "LIST_ADD h lh el = Some (h4, el)" using assms(1,4) by (simp add: LIST_ADD_def 1 l1 2 3 4)
  moreover have "\<forall>s. load h4 s = (if s = Slot_p el then Some lh else if s = Slot_p f then Some el
         else if s = Slot_n lh then Some el else if s = Slot_n el then Some f else load h s)"
    by (simp add: load_store[OF 4] load_store[OF 3] load_store[OF 2] load_store[OF 1])
  ultimately show ?thesis using d4 by blast
qed

lemma LIST_ADDQ_loads:
  assumes "load h (Slot_p lh) = Some t" "el \<in> dom h" "t \<in> dom h" "el \<noteq> lh"
  shows "\<exists>h'. LIST_ADDQ h lh el = Some (h', el) \<and> dom h' = dom h \<and>
    (\<forall>s. load h' s = (if s = Slot_n el then Some lh else if s = Slot_n t then Some el
         else if s = Slot_p lh then Some el else if s = Slot_p el then Some t else load h s))"
proof -
  have lhd: "lh \<in> dom h" using assms(1) load_defined[of h "Slot_p lh"] by auto
  obtain h1 where 1: "store h (Slot_p el) t = Some h1" using store_defined[of "Slot_p el" h] assms by auto
  have d1: "dom h1 = dom h" using store_dom[OF 1] .
  have l1: "load h1 (Slot_p el) = Some t" by (simp add: load_store[OF 1])
  obtain h2 where 2: "store h1 (Slot_p lh) el = Some h2" using store_defined[of "Slot_p lh" h1] lhd d1 by auto
  have d2: "dom h2 = dom h" using store_dom[OF 2] d1 by simp
  obtain h3 where 3: "store h2 (Slot_n t) el = Some h3" using store_defined[of "Slot_n t" h2] assms d2 by auto
  have d3: "dom h3 = dom h" using store_dom[OF 3] d2 by simp
  obtain h4 where 4: "store h3 (Slot_n el) lh = Some h4" using store_defined[of "Slot_n el" h3] assms d3 by auto
  have d4: "dom h4 = dom h" using store_dom[OF 4] d3 by simp
  have "LIST_ADDQ h lh el = Some (h4, el)" using assms(1,4) by (simp add: LIST_ADDQ_def 1 l1 2 3 4)
  moreover have "\<forall>s. load h4 s = (if s = Slot_n el then Some lh else if s = Slot_n t then Some el
         else if s = Slot_p lh then Some el else if s = Slot_p el then Some t else load h s)"
    by (simp add: load_store[OF 4] load_store[OF 3] load_store[OF 2] load_store[OF 1])
  ultimately show ?thesis using d4 by blast
qed

lemma LIST_DEL_loads:
  assumes "load h (Slot_n el) = Some nx" "load h (Slot_p el) = Some pv" "nx \<in> dom h" "pv \<in> dom h"
  shows "\<exists>h'. LIST_DEL h el = Some (h', el) \<and> dom h' = dom h \<and>
    (\<forall>s. load h' s = (if s = Slot_n pv then Some nx else if s = Slot_p nx then Some pv else load h s))"
proof -
  obtain h1 where 1: "store h (Slot_p nx) pv = Some h1" using store_defined[of "Slot_p nx" h] assms by auto
  have d1: "dom h1 = dom h" using store_dom[OF 1] .
  have l1: "load h1 (Slot_p el) = Some pv" "load h1 (Slot_n el) = Some nx"
    using assms(1,2) by (auto simp add: load_store[OF 1])
  obtain h2 where 2: "store h1 (Slot_n pv) nx = Some h2" using store_defined[of "Slot_n pv" h1] assms d1 by auto
  have d2: "dom h2 = dom h" using store_dom[OF 2] d1 by simp
  have "LIST_DEL h el = Some (h2, el)" using assms(1,2) by (simp add: LIST_DEL_def 1 l1 2)
  moreover have "\<forall>s. load h2 s = (if s = Slot_n pv then Some nx else if s = Slot_p nx then Some pv else load h s)"
    by (simp add: load_store[OF 2] load_store[OF 1])
  ultimately show ?thesis using d2 by blast
qed

lemma LIST_DEL_INIT_loads:
  assumes "load h (Slot_n el) = Some nx" "load h (Slot_p el) = Some pv" "nx \<in> dom h" "pv \<in> dom h"
  shows "\<exists>h'. LIST_DEL_INIT h el = Some (h', el) \<and> dom h' = dom h \<and>
    (\<forall>s. load h' s = (if s = Slot_n el then Some el else if s = Slot_p el then Some el
          else if s = Slot_n pv then Some nx else if s = Slot_p nx then Some pv else load h s))"
proof -
  have eld: "el \<in> dom h" using assms(1) load_defined[of h "Slot_n el"] by auto
  obtain h1 where 1: "store h (Slot_p nx) pv = Some h1" using store_defined[of "Slot_p nx" h] assms by auto
  have d1: "dom h1 = dom h" using store_dom[OF 1] .
  obtain h2 where 2: "store h1 (Slot_n pv) nx = Some h2" using store_defined[of "Slot_n pv" h1] assms d1 by auto
  have d2: "dom h2 = dom h" using store_dom[OF 2] d1 by simp
  obtain h3 where 3: "store h2 (Slot_p el) el = Some h3" using store_defined[of "Slot_p el" h2] eld d2 by auto
  have d3: "dom h3 = dom h" using store_dom[OF 3] d2 by simp
  obtain h4 where 4: "store h3 (Slot_n el) el = Some h4" using store_defined[of "Slot_n el" h3] eld d3 by auto
  have d4: "dom h4 = dom h" using store_dom[OF 4] d3 by simp
  have "LIST_DEL_INIT h el = Some (h4, el)" using assms(1,2) by (simp add: LIST_DEL_INIT_def 1 2 3 4)
  moreover have "\<forall>s. load h4 s = (if s = Slot_n el then Some el else if s = Slot_p el then Some el
          else if s = Slot_n pv then Some nx else if s = Slot_p nx then Some pv else load h s)"
    by (simp add: load_store[OF 4] load_store[OF 3] load_store[OF 2] load_store[OF 1])
  ultimately show ?thesis using d4 by blast
qed

section \<open>Reachability and the invariant\<close>

lemma ring_invE:
  assumes "ring_inv h head" "x \<in> reach h head"
  obtains a b where "N h x = Some a" "P h x = Some b" "P h a = Some x" "N h b = Some x"
    "a \<in> reach h head" "b \<in> reach h head"
  using assms unfolding ring_inv_def by (meson reach.reach_next)

lemma ring_no_self_loop:
  assumes inv: "ring_inv h head" and x: "x \<in> reach h head"
  shows "x \<noteq> head \<Longrightarrow> N h x \<noteq> Some x"
  using x
proof (induction)
  case reach_head
  then show ?case by simp
next
  case (reach_next z y)
  show ?case
  proof
    assume yy: "N h y = Some y"
    have yr: "y \<in> reach h head" using reach_next.hyps reach.reach_next by blast
    from ring_invE[OF inv yr] yy have py: "P h y = Some y" by (metis option.inject)
    from ring_invE[OF inv reach_next.hyps(1)] reach_next.hyps(2) have "P h y = Some z"
      by (metis option.inject)
    with py have "z = y" by simp
    with reach_next yy show False by auto
  qed
qed

lemma ring_no_self_loop_p:
  assumes inv: "ring_inv h head" and x: "x \<in> reach h head" and "x \<noteq> head"
  shows "P h x \<noteq> Some x"
  using ring_invE[OF inv x] ring_no_self_loop[OF inv x assms(3)] by (metis option.inject)

lemma reach_add:
  assumes inv: "ring_inv h head" and nel: "el \<notin> reach h head" and lhr: "lh \<in> reach h head"
    and f: "N h lh = Some f"
    and N': "\<And>x. N h' x = (if x = lh then Some el else if x = el then Some f else N h x)"
  shows "reach h' head = insert el (reach h head)"
proof -
  have fr: "f \<in> reach h head" using reach.reach_next[OF lhr f] .
  have ell: "el \<noteq> lh" using nel lhr by auto
  have A: "x \<in> insert el (reach h head)" if "x \<in> reach h' head" for x
    using that
  proof induction
    case reach_head
    then show ?case by (simp add: reach.reach_head)
  next
    case (reach_next x y)
    then show ?case using N'[of x] fr by (auto split: if_splits intro: reach.reach_next)
  qed
  have nl: "N h' lh = Some el" using N'[of lh] by simp
  have ne: "N h' el = Some f" using N'[of el] ell by simp
  have B: "x \<in> reach h' head" if "x \<in> reach h head" for x
    using that
  proof induction
    case reach_head
    then show ?case by (simp add: reach.reach_head)
  next
    case (reach_next x y)
    have "x \<noteq> el" using reach_next.hyps(1) nel by auto
    show ?case
    proof (cases "x = lh")
      case True
      have "el \<in> reach h' head" using reach.reach_next[OF reach_next.IH] nl True by blast
      then have "f \<in> reach h' head" using reach.reach_next ne by blast
      then show ?thesis using True reach_next.hyps(2) f by simp
    next
      case False
      then have "N h' x = Some y" using N'[of x] \<open>x \<noteq> el\<close> reach_next.hyps(2) by simp
      then show ?thesis using reach.reach_next[OF reach_next.IH] by blast
    qed
  qed
  have el': "el \<in> reach h' head" using reach.reach_next[OF B[OF lhr] nl] .
  show ?thesis using A B el' by auto
qed

lemma ring_inv_add:
  assumes inv: "ring_inv h head" and nel: "el \<notin> reach h head" and lhr: "lh \<in> reach h head"
    and f: "N h lh = Some f"
    and N': "\<And>x. N h' x = (if x = lh then Some el else if x = el then Some f else N h x)"
    and P': "\<And>x. P h' x = (if x = el then Some lh else if x = f then Some el else P h x)"
  shows "ring_inv h' head"
proof -
  have R: "reach h' head = insert el (reach h head)" using reach_add[OF inv nel lhr f N'] .
  have fr: "f \<in> reach h head" using reach.reach_next[OF lhr f] .
  have elh: "el \<noteq> lh" "el \<noteq> f" using nel lhr fr by auto
  have pf: "P h f = Some lh" using ring_invE[OF inv lhr] f by (metis option.inject)
  show ?thesis unfolding ring_inv_def R
  proof
    fix x assume xin: "x \<in> insert el (reach h head)"
    show "\<exists>a b. N h' x = Some a \<and> P h' x = Some b \<and> P h' a = Some x \<and> N h' b = Some x \<and> b \<in> insert el (reach h head)"
    proof (cases "x = el")
      case True
      then show ?thesis using N' P' elh lhr by simp
    next
      case xel: False
      then have xr: "x \<in> reach h head" using xin by simp
      from ring_invE[OF inv xr] obtain a b where ab: "N h x = Some a" "P h x = Some b" "P h a = Some x" "N h b = Some x"
        "a \<in> reach h head" "b \<in> reach h head" by blast
      have ael: "a \<noteq> el" "b \<noteq> el" using ab nel by auto
      show ?thesis
      proof (cases "x = lh")
        case xh: True
        have af: "a = f" using ab(1) f xh by simp
        show ?thesis
        proof (cases "f = lh")
          case True
          then show ?thesis using xh N' P' elh by simp
        next
          case False
          have "b \<noteq> lh" using ab(4) f False xh by auto
          then show ?thesis using xh N' P' elh ab ael False af by simp
        qed
      next
        case xh: False
        show ?thesis
        proof (cases "x = f")
          case True
          have "a \<noteq> f"
          proof
            assume "a = f"
            then have "P h f = Some f" using ab(3) True by simp
            with pf True xh show False by simp
          qed
          then show ?thesis using True N' P' elh ab ael xh by simp
        next
          case xf: False
          have "a \<noteq> f" using ab(3) pf xh by auto
          moreover have bh: "b \<noteq> lh" using ab(4) f xf by auto
          ultimately show ?thesis using xf xel N' P' elh ab ael xh by simp
        qed
      qed
    qed
  qed
qed

lemma reach_addq:
  assumes inv: "ring_inv h head" and nel: "el \<notin> reach h head" and lhr: "lh \<in> reach h head"
    and t: "P h lh = Some t"
    and N': "\<And>x. N h' x = (if x = el then Some lh else if x = t then Some el else N h x)"
  shows "reach h' head = insert el (reach h head)"
proof -
  from ring_invE[OF inv lhr] t have tr: "t \<in> reach h head" and nt: "N h t = Some lh"
    by (metis option.inject)+
  have elt: "el \<noteq> t" using nel tr by auto
  have A: "x \<in> insert el (reach h head)" if "x \<in> reach h' head" for x
    using that
  proof induction
    case reach_head
    then show ?case by (simp add: reach.reach_head)
  next
    case (reach_next x y)
    then show ?case using N'[of x] lhr by (auto split: if_splits intro: reach.reach_next)
  qed
  have n1: "N h' t = Some el" using N'[of t] elt by simp
  have n2: "N h' el = Some lh" using N'[of el] by simp
  have B: "x \<in> reach h' head" if "x \<in> reach h head" for x
    using that
  proof induction
    case reach_head
    then show ?case by (simp add: reach.reach_head)
  next
    case (reach_next x y)
    have xel: "x \<noteq> el" using reach_next.hyps(1) nel by auto
    show ?case
    proof (cases "x = t")
      case True
      then have y: "y = lh" using reach_next.hyps(2) nt by simp
      have "el \<in> reach h' head" using reach.reach_next[OF reach_next.IH] n1 True by blast
      then have "lh \<in> reach h' head" using reach.reach_next n2 by blast
      then show ?thesis using y by simp
    next
      case False
      then have "N h' x = Some y" using N'[of x] xel reach_next.hyps(2) by simp
      then show ?thesis using reach.reach_next[OF reach_next.IH] by blast
    qed
  qed
  have el': "el \<in> reach h' head" using reach.reach_next[OF B[OF tr] n1] .
  show ?thesis using A B el' by auto
qed

lemma ring_inv_addq:
  assumes inv: "ring_inv h head" and nel: "el \<notin> reach h head" and lhr: "lh \<in> reach h head"
    and t: "P h lh = Some t"
    and N': "\<And>x. N h' x = (if x = el then Some lh else if x = t then Some el else N h x)"
    and P': "\<And>x. P h' x = (if x = lh then Some el else if x = el then Some t else P h x)"
  shows "ring_inv h' head"
proof -
  have R: "reach h' head = insert el (reach h head)" using reach_addq[OF inv nel lhr t N'] .
  from ring_invE[OF inv lhr] t have tr: "t \<in> reach h head" and nt: "N h t = Some lh"
    by (metis option.inject)+
  have elh: "el \<noteq> lh" "el \<noteq> t" using nel lhr tr by auto
  show ?thesis unfolding ring_inv_def R
  proof
    fix x assume xin: "x \<in> insert el (reach h head)"
    show "\<exists>a b. N h' x = Some a \<and> P h' x = Some b \<and> P h' a = Some x \<and> N h' b = Some x \<and> b \<in> insert el (reach h head)"
    proof (cases "x = el")
      case True
      then show ?thesis using N' P' elh tr by simp
    next
      case xel: False
      then have xr: "x \<in> reach h head" using xin by simp
      from ring_invE[OF inv xr] obtain a b where ab: "N h x = Some a" "P h x = Some b" "P h a = Some x" "N h b = Some x"
        "a \<in> reach h head" "b \<in> reach h head" by blast
      have ael: "a \<noteq> el" "b \<noteq> el" using ab nel by auto
      show ?thesis
      proof (cases "x = lh")
        case xh: True
        have bt: "b = t" using ab(2) t xh by simp
        show ?thesis
        proof (cases "t = lh")
          case True
          then show ?thesis using xh N' P' elh by simp
        next
          case False
          have "a \<noteq> lh" using ab(3) t False xh by auto
          then show ?thesis using xh N' P' elh ab ael False bt by simp
        qed
      next
        case xh: False
        show ?thesis
        proof (cases "x = t")
          case True
          have "b \<noteq> t"
          proof
            assume "b = t"
            then have "N h t = Some t" using ab(4) True by simp
            with nt True xh show False by simp
          qed
          then show ?thesis using True N' P' elh ab ael xh by simp
        next
          case xt: False
          have "b \<noteq> t" using ab(4) nt xh by auto
          moreover have "a \<noteq> lh" using ab(3) t xt by auto
          ultimately show ?thesis using xt xel N' P' elh ab ael xh by simp
        qed
      qed
    qed
  qed
qed

lemma reach_del:
  assumes inv: "ring_inv h head" and el: "el \<in> reach h head" and elh: "el \<noteq> head"
    and nx: "N h el = Some nx" and pv: "P h el = Some pv"
    and N': "\<And>x. x \<noteq> el \<Longrightarrow> N h' x = (if x = pv then Some nx else N h x)"
  shows "reach h' head = reach h head - {el}"
proof -
  have hr: "head \<in> reach h head" by (rule reach.reach_head)
  from ring_invE[OF inv el] nx pv have nxr: "nx \<in> reach h head" and pvr: "pv \<in> reach h head"
    and pnx: "P h nx = Some el" and npv: "N h pv = Some el"
    by (metis option.inject)+
  have nxel: "nx \<noteq> el" using ring_no_self_loop[OF inv el elh] nx by auto
  have pvel: "pv \<noteq> el" using ring_no_self_loop_p[OF inv el elh] pv by auto
  have A: "x \<in> reach h head - {el}" if "x \<in> reach h' head" for x
    using that
  proof induction
    case reach_head
    then show ?case using elh by (simp add: reach.reach_head)
  next
    case (reach_next x y)
    then have xr: "x \<in> reach h head" and xel: "x \<noteq> el" by auto
    show ?case
    proof (cases "x = pv")
      case True
      then have "y = nx" using N'[OF xel] reach_next.hyps(2) by simp
      then show ?thesis using nxr nxel by simp
    next
      case False
      then have ny: "N h x = Some y" using N'[OF xel] reach_next.hyps(2) by simp
      have "y \<noteq> el"
      proof
        assume "y = el"
        with ring_invE[OF inv xr] ny pv have "x = pv" by (metis option.inject)
        with False show False by simp
      qed
      then show ?thesis using reach.reach_next[OF xr ny] by simp
    qed
  qed
  have B: "(x \<noteq> el \<longrightarrow> x \<in> reach h' head) \<and> (x = el \<longrightarrow> pv \<in> reach h' head)" if "x \<in> reach h head" for x
    using that
  proof induction
    case reach_head
    then show ?case using elh by (simp add: reach.reach_head)
  next
    case (reach_next z y)
    show ?case
    proof (cases "y = el")
      case True
      with ring_invE[OF inv reach_next.hyps(1)] reach_next.hyps(2) pv have "z = pv" by (metis option.inject)
      then show ?thesis using True reach_next.IH pvel by simp
    next
      case yel: False
      show ?thesis
      proof (cases "z = el")
        case True
        then have "y = nx" using reach_next.hyps(2) nx by simp
        moreover have "pv \<in> reach h' head" using reach_next.IH True by simp
        moreover have "N h' pv = Some nx" using N'[OF pvel] by simp
        ultimately show ?thesis using yel reach.reach_next by blast
      next
        case False
        then have zr: "z \<in> reach h' head" using reach_next.IH by simp
        have "z \<noteq> pv" using reach_next.hyps(2) npv yel by auto
        then have "N h' z = Some y" using N'[OF False] reach_next.hyps(2) by simp
        then show ?thesis using yel reach.reach_next[OF zr] by blast
      qed
    qed
  qed
  show ?thesis using A B by blast
qed

lemma ring_inv_del:
  assumes inv: "ring_inv h head" and el: "el \<in> reach h head" and elh: "el \<noteq> head"
    and nx: "N h el = Some nx" and pv: "P h el = Some pv"
    and N': "\<And>x. x \<noteq> el \<Longrightarrow> N h' x = (if x = pv then Some nx else N h x)"
    and P': "\<And>x. x \<noteq> el \<Longrightarrow> P h' x = (if x = nx then Some pv else P h x)"
  shows "ring_inv h' head"
proof -
  have R: "reach h' head = reach h head - {el}" using reach_del[OF inv el elh nx pv N'] .
  from ring_invE[OF inv el] nx pv have nxr: "nx \<in> reach h head" and pvr: "pv \<in> reach h head"
    and pnx: "P h nx = Some el" and npv: "N h pv = Some el"
    by (metis option.inject)+
  have nxel: "nx \<noteq> el" using ring_no_self_loop[OF inv el elh] nx by auto
  have pvel: "pv \<noteq> el" using ring_no_self_loop_p[OF inv el elh] pv by auto
  show ?thesis unfolding ring_inv_def R
  proof
    fix x assume xin: "x \<in> reach h head - {el}"
    then have xr: "x \<in> reach h head" and xel: "x \<noteq> el" by auto
    from ring_invE[OF inv xr] obtain a b where ab: "N h x = Some a" "P h x = Some b" "P h a = Some x" "N h b = Some x"
      "a \<in> reach h head" "b \<in> reach h head" by blast
    have 1: "\<exists>a'. N h' x = Some a' \<and> P h' a' = Some x"
    proof (cases "x = pv")
      case True
      then show ?thesis using N'[OF xel] P'[OF nxel] by simp
    next
      case False
      have "a \<noteq> el" using ab(1) ab(3) pv False by auto
      moreover have "a \<noteq> nx" using ab(3) pnx xel by auto
      ultimately show ?thesis using N'[OF xel] P'[of a] ab False by simp
    qed
    have 2: "\<exists>b'. P h' x = Some b' \<and> N h' b' = Some x \<and> b' \<in> reach h head - {el}"
    proof (cases "x = nx")
      case True
      then show ?thesis using P'[OF xel] N'[OF pvel] pvr pvel by simp
    next
      case False
      have "b \<noteq> el" using ab(2) ab(4) nx False by auto
      moreover have "b \<noteq> pv" using ab(4) npv xel by auto
      ultimately show ?thesis using P'[OF xel] N'[of b] ab False by simp
    qed
    from 1 2 show "\<exists>a b. N h' x = Some a \<and> P h' x = Some b \<and> P h' a = Some x \<and> N h' b = Some x \<and> b \<in> reach h head - {el}"
      by blast
  qed
qed

lemma ring_inv_init:
  assumes "N h head = Some head" "P h head = Some head"
  shows "reach h head = {head}" "ring_inv h head"
proof -
  have "x = head" if "x \<in> reach h head" for x
    using that by induction (use assms in auto)
  then show R: "reach h head = {head}" using reach.reach_head by auto
  show "ring_inv h head" unfolding ring_inv_def R using assms by simp
qed

lemma ring_inv_dl_inv: "ring_inv h head \<Longrightarrow> dl_inv h head"
  unfolding dl_inv_def
  by (meson ring_invE reach.reach_head)

lemma ring_inv_linked:
  assumes "ring_inv h head" "x \<in> reach h head"
  shows "linked h x"
proof -
  from ring_invE[OF assms] obtain a b where ab: "N h x = Some a" "P h x = Some b" "P h a = Some x" "N h b = Some x"
    by blast
  then obtain nd where "h x = Some nd" "list_n nd = a" "list_p nd = b"
    by (auto simp: load.simps)
  then show ?thesis using ab by (simp add: linked_def)
qed

section \<open>Every call keeps the invariant\<close>

lemma ring_inv_dom:
  assumes inv: "ring_inv h head" and x: "x \<in> reach h head"
  obtains a b where "N h x = Some a" "P h x = Some b" "P h a = Some x" "N h b = Some x"
    "a \<in> reach h head" "b \<in> reach h head" "a \<in> dom h" "b \<in> dom h" "x \<in> dom h"
proof -
  from ring_invE[OF inv x] obtain a b where
    ab: "N h x = Some a" "P h x = Some b" "P h a = Some x" "N h b = Some x"
    "a \<in> reach h head" "b \<in> reach h head" by blast
  have "a \<in> dom h" "b \<in> dom h" "x \<in> dom h"
    using ab(1,3,4) load_defined[of h "Slot_p a"] load_defined[of h "Slot_n b"] load_defined[of h "Slot_n x"]
    by auto
  with ab show ?thesis using that by blast
qed

lemma store_Some_dom: "store h s v = Some h' \<Longrightarrow> slot_addr s \<in> dom h"
  by (cases s) (auto simp: store.simps split: option.splits)

lemma LIST_ADD_dom: "LIST_ADD h lh el = Some r \<Longrightarrow> el \<in> dom h"
  unfolding LIST_ADD_def using store_Some_dom[of h "Slot_n el"]
  by (auto split: Option.bind_splits)

lemma LIST_ADDQ_dom: "LIST_ADDQ h lh el = Some r \<Longrightarrow> el \<in> dom h"
  unfolding LIST_ADDQ_def using store_Some_dom[of h "Slot_p el"]
  by (auto split: Option.bind_splits)

lemma step_add:
  assumes inv: "ring_inv h head" and lhr: "lh \<in> reach h head"
    and eld: "el \<in> dom h" and nel: "el \<notin> reach h head"
  shows "\<exists>h'. LIST_ADD h lh el = Some (h', el) \<and> dom h' = dom h \<and> ring_inv h' head \<and>
     reach h' head = insert el (reach h head)"
proof -
  from ring_inv_dom[OF inv lhr] obtain f where f: "N h lh = Some f" "f \<in> reach h head" "f \<in> dom h"
    by blast
  have ne: "el \<noteq> lh" "el \<noteq> f" using nel f(2) lhr by auto
  from LIST_ADD_loads[OF f(1) eld f(3) ne(1)] obtain h' where
    h': "LIST_ADD h lh el = Some (h', el)" "dom h' = dom h"
    and L: "\<And>s. load h' s = (if s = Slot_p el then Some lh else if s = Slot_p f then Some el
         else if s = Slot_n lh then Some el else if s = Slot_n el then Some f else load h s)"
    by blast
  have N': "\<And>x. N h' x = (if x = lh then Some el else if x = el then Some f else N h x)"
    by (simp add: L)
  have P': "\<And>x. P h' x = (if x = el then Some lh else if x = f then Some el else P h x)"
    by (simp add: L)
  show ?thesis
    using h' ring_inv_add[OF inv nel lhr f(1) N' P'] reach_add[OF inv nel lhr f(1) N'] by blast
qed

lemma step_addq:
  assumes inv: "ring_inv h head" and lhr: "lh \<in> reach h head"
    and eld: "el \<in> dom h" and nel: "el \<notin> reach h head"
  shows "\<exists>h'. LIST_ADDQ h lh el = Some (h', el) \<and> dom h' = dom h \<and> ring_inv h' head \<and>
     reach h' head = insert el (reach h head)"
proof -
  from ring_inv_dom[OF inv lhr] obtain t where t: "P h lh = Some t" "t \<in> reach h head" "t \<in> dom h"
    by blast
  have ne: "el \<noteq> lh" "el \<noteq> t" using nel t(2) lhr by auto
  from LIST_ADDQ_loads[OF t(1) eld t(3) ne(1)] obtain h' where
    h': "LIST_ADDQ h lh el = Some (h', el)" "dom h' = dom h"
    and L: "\<And>s. load h' s = (if s = Slot_n el then Some lh else if s = Slot_n t then Some el
         else if s = Slot_p lh then Some el else if s = Slot_p el then Some t else load h s)"
    by blast
  have N': "\<And>x. N h' x = (if x = el then Some lh else if x = t then Some el else N h x)"
    by (simp add: L)
  have P': "\<And>x. P h' x = (if x = lh then Some el else if x = el then Some t else P h x)"
    by (simp add: L)
  show ?thesis
    using h' ring_inv_addq[OF inv nel lhr t(1) N' P'] reach_addq[OF inv nel lhr t(1) N'] by blast
qed

lemma step_del:
  assumes inv: "ring_inv h head" and el: "el \<in> reach h head" and elh: "el \<noteq> head"
  shows "\<exists>h'. LIST_DEL h el = Some (h', el) \<and> dom h' = dom h \<and> ring_inv h' head \<and>
     reach h' head = reach h head - {el} \<and> N h' el = N h el \<and> P h' el = P h el"
proof -
  from ring_invE[OF inv el] obtain nx pv where np: "N h el = Some nx" "P h el = Some pv"
    "P h nx = Some el" "N h pv = Some el" by blast
  have d: "nx \<in> dom h" "pv \<in> dom h"
    using np(3,4) load_defined[of h "Slot_p nx"] load_defined[of h "Slot_n pv"] by auto
  have nxel: "nx \<noteq> el" using ring_no_self_loop[OF inv el elh] np(1) by auto
  have pvel: "pv \<noteq> el" using ring_no_self_loop_p[OF inv el elh] np(2) by auto
  from LIST_DEL_loads[OF np(1,2) d] obtain h' where
    h': "LIST_DEL h el = Some (h', el)" "dom h' = dom h"
    and L: "\<And>s. load h' s = (if s = Slot_n pv then Some nx else if s = Slot_p nx then Some pv else load h s)"
    by blast
  have N': "\<And>x. x \<noteq> el \<Longrightarrow> N h' x = (if x = pv then Some nx else N h x)"
    by (simp add: L)
  have P': "\<And>x. x \<noteq> el \<Longrightarrow> P h' x = (if x = nx then Some pv else P h x)"
    by (simp add: L)
  have "N h' el = N h el" "P h' el = P h el" using nxel pvel by (simp_all add: L)
  then show ?thesis using h' ring_inv_del[OF inv el elh np(1,2) N' P'] reach_del[OF inv el elh np(1,2) N']
    by blast
qed

lemma step_del_init:
  assumes inv: "ring_inv h head" and el: "el \<in> reach h head" and elh: "el \<noteq> head"
  shows "\<exists>h'. LIST_DEL_INIT h el = Some (h', el) \<and> dom h' = dom h \<and> ring_inv h' head \<and>
     reach h' head = reach h head - {el} \<and> N h' el = Some el \<and> P h' el = Some el"
proof -
  from ring_invE[OF inv el] obtain nx pv where np: "N h el = Some nx" "P h el = Some pv"
    "P h nx = Some el" "N h pv = Some el" by blast
  have d: "nx \<in> dom h" "pv \<in> dom h"
    using np(3,4) load_defined[of h "Slot_p nx"] load_defined[of h "Slot_n pv"] by auto
  from LIST_DEL_INIT_loads[OF np(1,2) d] obtain h' where
    h': "LIST_DEL_INIT h el = Some (h', el)" "dom h' = dom h"
    and L: "\<And>s. load h' s = (if s = Slot_n el then Some el else if s = Slot_p el then Some el
          else if s = Slot_n pv then Some nx else if s = Slot_p nx then Some pv else load h s)"
    by blast
  have N': "\<And>x. x \<noteq> el \<Longrightarrow> N h' x = (if x = pv then Some nx else N h x)"
    by (simp add: L)
  have P': "\<And>x. x \<noteq> el \<Longrightarrow> P h' x = (if x = nx then Some pv else P h x)"
    by (simp add: L)
  have "N h' el = Some el" "P h' el = Some el" by (simp_all add: L)
  then show ?thesis using h' ring_inv_del[OF inv el elh np(1,2) N' P'] reach_del[OF inv el elh np(1,2) N']
    by blast
qed

text \<open>A call that leaves the fields of every node on the list alone leaves the list alone.\<close>

lemma ring_inv_frame:
  assumes same: "\<forall>x\<in>reach h head. N h' x = N h x \<and> P h' x = P h x"
  shows "reach h' head = reach h head" and "ring_inv h head \<Longrightarrow> ring_inv h' head"
proof -
  have A: "x \<in> reach h' head" if "x \<in> reach h head" for x
    using that
  proof induction
    case reach_head
    then show ?case by (simp add: reach.reach_head)
  next
    case (reach_next x y)
    then have "N h' x = Some y" using same by simp
    then show ?case using reach.reach_next[OF reach_next.IH] by blast
  qed
  have B: "x \<in> reach h head" if "x \<in> reach h' head" for x
    using that
  proof induction
    case reach_head
    then show ?case by (simp add: reach.reach_head)
  next
    case (reach_next x y)
    then have "N h x = Some y" using same by simp
    then show ?case using reach.reach_next[OF reach_next.IH] by blast
  qed
  show R: "reach h' head = reach h head" using A B by blast
  show "ring_inv h' head" if inv: "ring_inv h head"
    unfolding ring_inv_def R
  proof
    fix x assume xr: "x \<in> reach h head"
    from ring_invE[OF inv xr] obtain a b where ab: "N h x = Some a" "P h x = Some b"
      "P h a = Some x" "N h b = Some x" "a \<in> reach h head" "b \<in> reach h head" by blast
    then show "\<exists>a b. N h' x = Some a \<and> P h' x = Some b \<and> P h' a = Some x \<and> N h' b = Some x \<and>
        b \<in> reach h head"
      using same xr by auto
  qed
qed

text \<open>\<open>LIST_DEL\<close> on the head of an empty list stores what is there already.\<close>

lemma step_del_empty_head:
  assumes inv: "ring_inv h head" and e: "N h head = Some head"
  shows "\<exists>h'. LIST_DEL h head = Some (h', head) \<and> dom h' = dom h \<and> ring_inv h' head \<and>
     reach h' head = reach h head"
proof -
  from ring_inv_dom[OF inv reach.reach_head] e have p: "P h head = Some head" and d: "head \<in> dom h"
    by auto
  from LIST_DEL_loads[OF e p d d] obtain h' where
    h': "LIST_DEL h head = Some (h', head)" "dom h' = dom h"
    and L: "\<And>s. load h' s = (if s = Slot_n head then Some head
          else if s = Slot_p head then Some head else load h s)"
    by blast
  have same: "\<forall>x\<in>reach h head. N h' x = N h x \<and> P h' x = P h x" using e p by (simp add: L)
  show ?thesis using h' ring_inv_frame[OF same] inv by blast
qed

text \<open>\<open>LIST_DEL_INIT\<close> on the head leaves the head alone on its list.\<close>

lemma step_del_init_head:
  assumes inv: "ring_inv h head"
  shows "\<exists>h'. LIST_DEL_INIT h head = Some (h', head) \<and> dom h' = dom h \<and> ring_inv h' head \<and>
     reach h' head = {head}"
proof -
  from ring_inv_dom[OF inv reach.reach_head] obtain f t where
    ft: "N h head = Some f" "P h head = Some t" "f \<in> dom h" "t \<in> dom h" by blast
  from LIST_DEL_INIT_loads[OF ft] obtain h' where
    h': "LIST_DEL_INIT h head = Some (h', head)" "dom h' = dom h"
    and L: "\<And>s. load h' s = (if s = Slot_n head then Some head else if s = Slot_p head then Some head
          else if s = Slot_n t then Some f else if s = Slot_p f then Some t else load h s)"
    by blast
  have "N h' head = Some head" "P h' head = Some head" by (simp_all add: L)
  from ring_inv_init[OF this] h' show ?thesis by blast
qed

lemma step_init:
  assumes "head \<in> dom h0"
  shows "\<exists>h. LIST_INIT h0 head = Some (h, head) \<and> dom h = dom h0 \<and> ring_inv h head \<and>
     reach h head = {head}"
proof -
  from LIST_INIT_loads[OF assms] obtain h where
    h: "LIST_INIT h0 head = Some (h, head)" "dom h = dom h0"
    and L: "\<And>s. load h s = (if s = Slot_n head then Some head else if s = Slot_p head then Some head else load h0 s)"
    by blast
  have "N h head = Some head" "P h head = Some head" by (simp_all add: L)
  from ring_inv_init[OF this] h show ?thesis by blast
qed

lemma LIST_INIT_dom: "LIST_INIT h0 l = Some (h, r) \<Longrightarrow> l \<in> dom h0"
  unfolding LIST_INIT_def by (auto simp: store.simps split: option.splits Option.bind_splits)

lemma built_ring_inv: "built head h \<Longrightarrow> ring_inv h head"
proof (induction rule: built.induct)
  case (built_init h0 h r)
  then show ?case using step_init[OF LIST_INIT_dom[OF built_init]] by auto
next
  case (built_add h lh el h' r)
  from step_add[OF built_add.IH built_add.hyps(2) LIST_ADD_dom[OF built_add.hyps(4)] built_add.hyps(3)]
  show ?case using built_add.hyps(4) by auto
next
  case (built_addq h lh el h' r)
  from step_addq[OF built_addq.IH built_addq.hyps(2) LIST_ADDQ_dom[OF built_addq.hyps(4)] built_addq.hyps(3)]
  show ?case using built_addq.hyps(4) by auto
next
  case (built_del h el h' r)
  show ?case
  proof (cases "el = head")
    case True
    then have "N h head = Some head" using built_del.hyps(3) by simp
    from step_del_empty_head[OF built_del.IH this] show ?thesis
      using built_del.hyps(4) True by auto
  next
    case False
    from step_del[OF built_del.IH built_del.hyps(2) False] show ?thesis
      using built_del.hyps(4) by auto
  qed
next
  case (built_del_init h el h' r)
  show ?case
  proof (cases "el = head")
    case True
    from step_del_init_head[OF built_del_init.IH] show ?thesis
      using built_del_init.hyps(3) True by auto
  next
    case False
    from step_del_init[OF built_del_init.IH built_del_init.hyps(2) False] show ?thesis
      using built_del_init.hyps(3) by auto
  qed
next
  case (built_other h lh el h' r)
  have "\<forall>x\<in>reach h head. N h' x = N h x \<and> P h' x = P h x"
    using built_other.hyps(3) by (simp add: load.simps)
  from ring_inv_frame(2)[OF this built_other.IH] show ?case .
qed

text \<open>Every call on the list that \<open>built\<close> allows returns, and returns the node it was given.\<close>

lemma built_calls_defined:
  assumes "built head h"
  shows "lh \<in> reach h head \<Longrightarrow> el \<in> dom h \<Longrightarrow> el \<notin> reach h head \<Longrightarrow>
           (\<exists>h'. LIST_ADD h lh el = Some (h', el) \<and> built head h') \<and>
           (\<exists>h'. LIST_ADDQ h lh el = Some (h', el) \<and> built head h')"
    and "el \<in> reach h head \<Longrightarrow> el \<noteq> head \<or> N h head = Some head \<Longrightarrow>
           \<exists>h'. LIST_DEL h el = Some (h', el) \<and> built head h'"
    and "el \<in> reach h head \<Longrightarrow> \<exists>h'. LIST_DEL_INIT h el = Some (h', el) \<and> built head h'"
proof -
  note inv = built_ring_inv[OF assms]
  show "(\<exists>h'. LIST_ADD h lh el = Some (h', el) \<and> built head h') \<and>
        (\<exists>h'. LIST_ADDQ h lh el = Some (h', el) \<and> built head h')"
    if "lh \<in> reach h head" "el \<in> dom h" "el \<notin> reach h head"
    using step_add[OF inv that] step_addq[OF inv that] assms that
    by (meson built.built_add built.built_addq)
  show "\<exists>h'. LIST_DEL h el = Some (h', el) \<and> built head h'"
    if "el \<in> reach h head" "el \<noteq> head \<or> N h head = Some head"
  proof (cases "el = head")
    case True
    then have "N h head = Some head" using that(2) by simp
    from step_del_empty_head[OF inv this] show ?thesis
      using True assms that by (meson built.built_del)
  next
    case False
    from step_del[OF inv that(1) False] show ?thesis
      using assms that by (meson built.built_del)
  qed
  show "\<exists>h'. LIST_DEL_INIT h el = Some (h', el) \<and> built head h'" if "el \<in> reach h head"
  proof (cases "el = head")
    case True
    from step_del_init_head[OF inv] show ?thesis
      using True assms that by (meson built.built_del_init)
  next
    case False
    from step_del_init[OF inv that False] show ?thesis
      using assms that by (meson built.built_del_init)
  qed
qed

section \<open>The sample heaps, step by step\<close>

lemma run_init: "LIST_INIT h_fresh 16 = Some (h_init, 16)"
  by (simp add: LIST_INIT_def store.simps h_fresh_def h_init_def fun_eq_iff)

lemma run_add: "LIST_ADD h_init 16 32 = Some (h_add, 32)"
  by (simp add: LIST_ADD_def load.simps store.simps h_init_def h_add_def fun_eq_iff)

lemma run_addq: "LIST_ADDQ h_add 16 48 = Some (h_addq, 48)"
  by (simp add: LIST_ADDQ_def load.simps store.simps h_add_def h_addq_def fun_eq_iff)

lemma run_del: "LIST_DEL h_addq 32 = Some (h_del, 32)"
  by (simp add: LIST_DEL_def load.simps store.simps h_addq_def h_del_def fun_eq_iff)

lemma run_del2: "LIST_DEL h_del 48 = Some (h_del2, 48)"
  by (simp add: LIST_DEL_def load.simps store.simps h_del_def h_del2_def fun_eq_iff)

lemma run_del3: "LIST_DEL h_del2 32 = Some (h_del3, 32)"
  by (simp add: LIST_DEL_def load.simps store.simps h_del2_def h_del3_def fun_eq_iff)

lemma run_add_twice: "LIST_ADD h_add 16 32 = Some (h_add_twice, 32)"
  by (simp add: LIST_ADD_def load.simps store.simps h_add_def h_add_twice_def fun_eq_iff)

lemma run_del_head: "LIST_DEL h_add 16 = Some (h_del_head, 16)"
  by (simp add: LIST_DEL_def load.simps store.simps h_add_def h_del_head_def fun_eq_iff)

lemma built_h_init: "built 16 h_init"
  by (rule built.built_init[OF run_init])

lemma reach_h_init: "reach h_init 16 = {16}"
  by (rule ring_inv_init(1)) (simp_all add: h_init_def load.simps)

lemma built_h_add: "built 16 h_add"
proof (rule built.built_add[OF built_h_init _ _ run_add])
  show "16 \<in> reach h_init 16" by (rule reach.reach_head)
  show "32 \<notin> reach h_init 16" by (simp add: reach_h_init)
qed

lemma reach_h_add: "reach h_add 16 = {16, 32}"
proof -
  have "32 \<in> dom h_init" by (simp add: h_init_def)
  moreover have "32 \<notin> reach h_init 16" by (simp add: reach_h_init)
  ultimately show ?thesis
    using step_add[OF built_ring_inv[OF built_h_init] reach.reach_head, of 32] run_add reach_h_init
    by auto
qed

lemma built_h_addq: "built 16 h_addq"
proof (rule built.built_addq[OF built_h_add _ _ run_addq])
  show "16 \<in> reach h_add 16" by (rule reach.reach_head)
  show "48 \<notin> reach h_add 16" by (simp add: reach_h_add)
qed

lemma reach_h_addq: "reach h_addq 16 = {16, 32, 48}"
proof -
  have "48 \<in> dom h_add" by (simp add: h_add_def)
  moreover have "48 \<notin> reach h_add 16" by (simp add: reach_h_add)
  ultimately show ?thesis
    using step_addq[OF built_ring_inv[OF built_h_add] reach.reach_head, of 48] run_addq reach_h_add
    by auto
qed

lemma built_h_del: "built 16 h_del"
proof (rule built.built_del[OF built_h_addq _ _ run_del])
  show "32 \<in> reach h_addq 16" by (simp add: reach_h_addq)
  show "(32::ptr) \<noteq> 16 \<or> N h_addq 16 = Some 16" by simp
qed

text \<open>
  The further calls that \<open>built\<close> allows: \<open>LIST_ADD(32, 48)\<close> on \<open>h_add\<close> inserts 48
  after the member 32 and gives \<open>h_addq\<close>; \<open>LIST_DEL(16)\<close> on the empty list \<open>h_init\<close>
  changes nothing; \<open>LIST_DEL_INIT(16)\<close> on \<open>h_add\<close> takes the head off its list; and
  \<open>LIST_DEL_INIT(32)\<close> after that works on a node that is off the list.
\<close>

lemma run_add_after: "LIST_ADD h_add 32 48 = Some (h_addq, 48)"
  by (simp add: LIST_ADD_def load.simps store.simps h_add_def h_addq_def fun_eq_iff)

lemma run_del_empty: "LIST_DEL h_init 16 = Some (h_init, 16)"
  by (simp add: LIST_DEL_def load.simps store.simps h_init_def fun_eq_iff)

lemma run_head_out: "LIST_DEL_INIT h_add 16 = Some (h_head_out, 16)"
  by (simp add: LIST_DEL_INIT_def load.simps store.simps h_add_def h_head_out_def fun_eq_iff)

lemma run_off_list: "LIST_DEL_INIT h_head_out 32 = Some (h_head_out, 32)"
  by (simp add: LIST_DEL_INIT_def load.simps store.simps h_head_out_def fun_eq_iff)

lemma built_add_after: "built 16 h_addq"
proof (rule built.built_add[OF built_h_add _ _ run_add_after])
  show "32 \<in> reach h_add 16" by (simp add: reach_h_add)
  show "48 \<notin> reach h_add 16" by (simp add: reach_h_add)
qed

lemma built_del_empty: "built 16 h_init"
proof (rule built.built_del[OF built_h_init _ _ run_del_empty])
  show "16 \<in> reach h_init 16" by (rule reach.reach_head)
  show "(16::ptr) \<noteq> 16 \<or> N h_init 16 = Some 16" by (simp add: h_init_def load.simps)
qed

lemma built_h_head_out: "built 16 h_head_out"
  by (rule built.built_del_init[OF built_h_add reach.reach_head run_head_out])

lemma built_off_list: "built 16 h_head_out"
  by (rule built.built_other[where h = h_head_out and lh = 32 and el = 32 and r = 32])
    (simp_all add: built_h_head_out run_off_list)

section \<open>Removal with and without reinitialization\<close>

lemma LIST_DEL_INIT_eq: "LIST_DEL_INIT h el = remove_then_reinit h el"
  unfolding LIST_DEL_INIT_def remove_then_reinit_def LIST_DEL_def LIST_INIT_def
  by (auto split: option.splits Option.bind_splits simp: fun_upd_twist load.simps store.simps)

lemma linkedE:
  assumes "linked h el"
  obtains nx pv where "N h el = Some nx" "P h el = Some pv" "P h nx = Some el" "N h pv = Some el"
    "nx \<in> dom h" "pv \<in> dom h" "el \<in> dom h"
proof -
  from assms obtain nd where nd: "h el = Some nd" "P h (list_n nd) = Some el" "N h (list_p nd) = Some el"
    by (auto simp: linked_def split: option.splits)
  have "N h el = Some (list_n nd)" "P h el = Some (list_p nd)" using nd(1) by (simp_all add: load.simps)
  moreover have "list_n nd \<in> dom h" "list_p nd \<in> dom h" "el \<in> dom h"
    using nd load_defined[of h "Slot_p (list_n nd)"] load_defined[of h "Slot_n (list_p nd)"] by auto
  ultimately show ?thesis using nd that by blast
qed

lemma member_addr_LIST_ELEM: "member_addr (LIST_ELEM x off) off = x"
  by (simp add: member_addr_def LIST_ELEM_def)

section \<open>The locked macros, run by one thread\<close>

lemma store_upd: "slot_addr s \<in> dom h \<Longrightarrow> store h s v = Some (upd h s v)"
  using store_defined[of s h v] by (auto simp: upd_def)

lemma dom_upd: "dom (upd h s v) = dom h"
  using store_dom[of h s v] by (auto simp: upd_def split: option.splits)

lemma load_upd: "slot_addr s \<in> dom h \<Longrightarrow> load (upd h s v) s' = (if s' = s then Some v else load h s')"
  using load_store[OF store_upd] by blast

lemma xchg_upd:
  "load h s = Some old \<Longrightarrow> HA_ATOMIC_XCHG (h, tr) s v = Some (old, (upd h s v, tr @ [Xchg s v old]))"
  using load_defined[of h s] by (auto simp: HA_ATOMIC_XCHG_def store_upd)

lemma assign_upd:
  "slot_addr s \<in> dom h \<Longrightarrow> assign (h, tr) s v = Some (upd h s v, tr @ [Write s v])"
  by (simp add: assign_def store_upd)

lemma barrier_upd: "ha_barrier_store (h, tr) = (h, tr @ [Barrier])"
  by (simp add: ha_barrier_store_def)

lemma upd_restore:
  assumes "load h s = Some old"
  shows "upd (upd h s v) s old = h"
proof (rule heap_eqI)
  fix s'
  have d: "slot_addr s \<in> dom h" using assms load_defined[of h s] by auto
  show "load (upd (upd h s v) s old) s' = load h s'"
    using assms d by (simp add: load_upd dom_upd)
qed

lemma LIST_ADD_LOCKED_spins:
  "N h lh = Some LLIST_BUSY \<Longrightarrow> LIST_ADD_LOCKED k (h, tr) lh el = OutOfFuel"
proof (induction k arbitrary: h tr)
  case 0
  then show ?case by (simp add: LIST_ADD_LOCKED_def)
next
  case (Suc k)
  have d: "lh \<in> dom h" using Suc.prems load_defined[of h "Slot_n lh"] by auto
  have b: "LIST_ADD_LOCKED_body lh el (h, tr) =
      Some (Continue (upd h (Slot_n lh) LLIST_BUSY, tr @ [Xchg (Slot_n lh) LLIST_BUSY LLIST_BUSY]))"
    by (simp add: LIST_ADD_LOCKED_body_def xchg_upd[OF Suc.prems])
  have "N (upd h (Slot_n lh) LLIST_BUSY) lh = Some LLIST_BUSY" using d by (simp add: load_upd)
  from Suc.IH[OF this] show ?case using b by (simp add: LIST_ADD_LOCKED_def)
qed

lemma LIST_POP_LOCKED_spins:
  "N h lh = Some LLIST_BUSY \<Longrightarrow> LIST_POP_LOCKED k (h, tr) lh off = OutOfFuel"
proof (induction k arbitrary: h tr)
  case 0
  then show ?case by (simp add: LIST_POP_LOCKED_def)
next
  case (Suc k)
  have d: "lh \<in> dom h" using Suc.prems load_defined[of h "Slot_n lh"] by auto
  have b: "LIST_POP_LOCKED_body lh off (h, tr) =
      Some (Continue (upd h (Slot_n lh) LLIST_BUSY, tr @ [Xchg (Slot_n lh) LLIST_BUSY LLIST_BUSY]))"
    by (simp add: LIST_POP_LOCKED_body_def xchg_upd[OF Suc.prems])
  have "N (upd h (Slot_n lh) LLIST_BUSY) lh = Some LLIST_BUSY" using d by (simp add: load_upd)
  from Suc.IH[OF this] show ?case using b by (simp add: LIST_POP_LOCKED_def)
qed

lemma LIST_DEL_LOCKED_spins:
  "N h el = Some LLIST_BUSY \<Longrightarrow> LIST_DEL_LOCKED k (h, tr) el = OutOfFuel"
proof (induction k arbitrary: h tr)
  case 0
  then show ?case by (simp add: LIST_DEL_LOCKED_def)
next
  case (Suc k)
  have d: "el \<in> dom h" using Suc.prems load_defined[of h "Slot_n el"] by auto
  have b: "LIST_DEL_LOCKED_body el (h, tr) =
      Some (Continue (upd h (Slot_n el) LLIST_BUSY, tr @ [Xchg (Slot_n el) LLIST_BUSY LLIST_BUSY]))"
    by (simp add: LIST_DEL_LOCKED_body_def xchg_upd[OF Suc.prems])
  have "N (upd h (Slot_n el) LLIST_BUSY) el = Some LLIST_BUSY" using d by (simp add: load_upd)
  from Suc.IH[OF this] show ?case using b by (simp add: LIST_DEL_LOCKED_def)
qed

lemma xchg_None: "load h s = None \<Longrightarrow> HA_ATOMIC_XCHG (h, tr) s v = None"
  by (simp add: HA_ATOMIC_XCHG_def)

lemma LIST_ADDQ_LOCKED_ILH:
  assumes "h lh = Some ILH" "2 \<notin> dom h"
  shows "LIST_ADDQ_LOCKED (Suc k) (h, tr) lh el = Undefined"
proof -
  have p: "P h lh = Some 2" using assms(1) by (simp add: load.simps ILH_def)
  have nb: "(2::ptr) \<noteq> LLIST_BUSY" by (simp add: LLIST_BUSY_def)
  have "load (upd h (Slot_p lh) LLIST_BUSY) (Slot_n 2) = None"
    using assms(2) load_defined[of "upd h (Slot_p lh) LLIST_BUSY" "Slot_n 2"]
    by (cases "load (upd h (Slot_p lh) LLIST_BUSY) (Slot_n 2)") (auto simp: dom_upd)
  then have "LIST_ADDQ_LOCKED_body lh el (h, tr) = None"
    using nb by (simp add: LIST_ADDQ_LOCKED_body_def xchg_upd[OF p] xchg_None)
  then show ?thesis by (simp add: LIST_ADDQ_LOCKED_def)
qed

section \<open>The invariant between calls\<close>

text \<open>
  Claim C1, as it is written, speaks of every list built with \<open>LIST_ADD\<close>, \<open>LIST_ADDQ\<close>,
  \<open>LIST_DEL\<close> and \<open>LIST_DEL_INIT\<close> from an initialized head. The macros check nothing,
  and three kinds of call lose the invariant \<open>dl_inv\<close>: inserting a node that is on the
  list already (\<open>h_add_twice\<close>), \<open>LIST_DEL\<close> of the head of a list that is not empty
  (\<open>h_del_head\<close>), and removing a node that is no longer on the list through the stale
  pointers it still holds into the list (\<open>h_del3\<close>). Each run below starts with
  \<open>LIST_INIT\<close> on the head 16.
\<close>

theorem dl_inv_lost_by_misuse:
  "LIST_INIT h_fresh 16 = Some (h_init, 16) \<and> LIST_ADD h_init 16 32 = Some (h_add, 32) \<and>
   LIST_ADD h_add 16 32 = Some (h_add_twice, 32) \<and> \<not> dl_inv h_add_twice 16 \<and>
   LIST_DEL h_add 16 = Some (h_del_head, 16) \<and> \<not> dl_inv h_del_head 16 \<and>
   LIST_ADDQ h_add 16 48 = Some (h_addq, 48) \<and> LIST_DEL h_addq 32 = Some (h_del, 32) \<and>
   LIST_DEL h_del 48 = Some (h_del2, 48) \<and> LIST_DEL h_del2 32 = Some (h_del3, 32) \<and>
   \<not> dl_inv h_del3 16"
proof -
  have a: "\<not> dl_inv h_add_twice 16"
  proof
    assume inv: "dl_inv h_add_twice 16"
    have "N h_add_twice 16 = Some 32" by (simp add: h_add_twice_def load.simps)
    then have "32 \<in> reach h_add_twice 16" using reach.reach_next[OF reach.reach_head] by blast
    with inv have "\<exists>a. N h_add_twice 32 = Some a \<and> P h_add_twice a = Some 32"
      unfolding dl_inv_def by blast
    then show False by (simp add: h_add_twice_def load.simps)
  qed
  have b: "\<not> dl_inv h_del_head 16"
  proof
    assume "dl_inv h_del_head 16"
    then have "\<exists>a. N h_del_head 16 = Some a \<and> P h_del_head a = Some 16"
      unfolding dl_inv_def by blast
    then show False by (simp add: h_del_head_def load.simps)
  qed
  have c: "\<not> dl_inv h_del3 16"
  proof
    assume "dl_inv h_del3 16"
    then have "\<exists>b. P h_del3 16 = Some b \<and> N h_del3 b = Some 16"
      unfolding dl_inv_def using reach.reach_head by blast
    then show False by (simp add: h_del3_def load.simps)
  qed
  show ?thesis
    using a b c run_init run_add run_add_twice run_del_head run_addq run_del run_del2 run_del3
    by simp
qed

text \<open>
  Claim C1, amended: for every heap reached from a head set up with \<open>LIST_INIT\<close> by
  calls of the four macros (the predicate \<open>built\<close>), the invariant holds:
  \<open>head->n->p == head\<close>, and \<open>x->n->p == x\<close> and \<open>x->p->n == x\<close> for every node \<open>x\<close>
  reachable from the head by following \<open>n\<close>; provided that each call
  \<^item> is a \<open>LIST_ADD\<close> or \<open>LIST_ADDQ\<close> at the head or at a node reachable from it, with a
    node that is not reachable from the head at the time, or
  \<^item> is a \<open>LIST_DEL\<close> of a node reachable from the head at the time, of the head itself
    only while the list is empty, or
  \<^item> is a \<open>LIST_DEL_INIT\<close> of a node reachable from the head at the time, the head
    included, or
  \<^item> leaves every node reachable from the head as it was.
  Every heap between two such calls is such a heap.
\<close>

theorem dl_inv_between_calls: "built head h \<Longrightarrow> dl_inv h head"
  by (rule ring_inv_dl_inv[OF built_ring_inv])

theorem dl_inv_between_calls_witness:
  "built 16 h_del \<and> dl_inv h_del 16 \<and> N h_del 16 = Some 48 \<and> P h_del 48 = Some 16 \<and>
   built 16 h_head_out \<and> dl_inv h_head_out 16"
  using dl_inv_between_calls[OF built_h_del] built_h_del
    dl_inv_between_calls[OF built_h_head_out] built_h_head_out
  by (simp add: h_del_def load.simps)

section \<open>Order of insertion\<close>

text \<open>
  Claim C2: for an empty head \<open>H\<close> (\<open>H->n == H\<close>, \<open>H->p == H\<close>) and two further live nodes
  \<open>A\<close> and \<open>B\<close>, all three distinct, \<open>LIST_ADDQ(H, A)\<close> then \<open>LIST_ADDQ(H, B)\<close> makes
  \<open>list_for_each_entry\<close> from \<open>H\<close> visit exactly the structures of \<open>A\<close> and \<open>B\<close>, in this
  order, and \<open>LIST_ADD(H, A)\<close> then \<open>LIST_ADD(H, B)\<close> makes it visit those of \<open>B\<close> and \<open>A\<close>.
  The loop tests its condition three times, so any fuel from 3 on is enough. What
  \<open>A\<close> and \<open>B\<close> hold before the calls does not matter: the macros overwrite both fields.
\<close>

theorem insertion_order:
  assumes "N h H = Some H" "P h H = Some H" "A \<in> dom h" "B \<in> dom h" "A \<noteq> H" "B \<noteq> H" "A \<noteq> B"
  shows "(\<exists>h1 h2. LIST_ADDQ h H A = Some (h1, A) \<and> LIST_ADDQ h1 H B = Some (h2, B) \<and>
            (\<forall>k. list_for_each_entry (k + 3) h2 H off = Done [LIST_ELEM A off, LIST_ELEM B off])) \<and>
         (\<exists>h1 h2. LIST_ADD h H A = Some (h1, A) \<and> LIST_ADD h1 H B = Some (h2, B) \<and>
            (\<forall>k. list_for_each_entry (k + 3) h2 H off = Done [LIST_ELEM B off, LIST_ELEM A off]))"
proof
  have Hd: "H \<in> dom h" using assms(1) load_defined[of h "Slot_n H"] by auto
  from LIST_ADDQ_loads[OF assms(2,3) Hd assms(5)] obtain h1 where
    h1: "LIST_ADDQ h H A = Some (h1, A)" "dom h1 = dom h"
    and L1: "\<And>s. load h1 s = (if s = Slot_n A then Some H else if s = Slot_n H then Some A
         else if s = Slot_p H then Some A else if s = Slot_p A then Some H else load h s)"
    by blast
  have p1: "P h1 H = Some A" using assms(5) by (simp add: L1)
  from LIST_ADDQ_loads[OF p1, of B] assms h1(2) obtain h2 where
    h2: "LIST_ADDQ h1 H B = Some (h2, B)"
    and L2: "\<And>s. load h2 s = (if s = Slot_n B then Some H else if s = Slot_n A then Some B
         else if s = Slot_p H then Some B else if s = Slot_p B then Some A else load h1 s)"
    by auto
  have n: "N h2 H = Some A" "N h2 A = Some B" "N h2 B = Some H"
    using assms(5,6,7) by (auto simp: L2 L1)
  have "list_for_each_entry (k + 3) h2 H off = Done [LIST_ELEM A off, LIST_ELEM B off]" for k
    using assms(5,6) by (simp add: list_for_each_entry_def n member_addr_LIST_ELEM numeral_3_eq_3)
  then show "\<exists>h1 h2. LIST_ADDQ h H A = Some (h1, A) \<and> LIST_ADDQ h1 H B = Some (h2, B) \<and>
            (\<forall>k. list_for_each_entry (k + 3) h2 H off = Done [LIST_ELEM A off, LIST_ELEM B off])"
    using h1 h2 by blast
next
  have Hd: "H \<in> dom h" using assms(1) load_defined[of h "Slot_n H"] by auto
  from LIST_ADD_loads[OF assms(1,3) Hd assms(5)] obtain h1 where
    h1: "LIST_ADD h H A = Some (h1, A)" "dom h1 = dom h"
    and L1: "\<And>s. load h1 s = (if s = Slot_p A then Some H else if s = Slot_p H then Some A
         else if s = Slot_n H then Some A else if s = Slot_n A then Some H else load h s)"
    by blast
  have p1: "N h1 H = Some A" using assms(5) by (simp add: L1)
  from LIST_ADD_loads[OF p1, of B] assms h1(2) obtain h2 where
    h2: "LIST_ADD h1 H B = Some (h2, B)"
    and L2: "\<And>s. load h2 s = (if s = Slot_p B then Some H else if s = Slot_p A then Some B
         else if s = Slot_n H then Some B else if s = Slot_n B then Some A else load h1 s)"
    by auto
  have n: "N h2 H = Some B" "N h2 B = Some A" "N h2 A = Some H"
    using assms(5,6,7) by (auto simp: L2 L1)
  have "list_for_each_entry (k + 3) h2 H off = Done [LIST_ELEM B off, LIST_ELEM A off]" for k
    using assms(5,6) by (simp add: list_for_each_entry_def n member_addr_LIST_ELEM numeral_3_eq_3)
  then show "\<exists>h1 h2. LIST_ADD h H A = Some (h1, A) \<and> LIST_ADD h1 H B = Some (h2, B) \<and>
            (\<forall>k. list_for_each_entry (k + 3) h2 H off = Done [LIST_ELEM B off, LIST_ELEM A off])"
    using h1 h2 by blast
qed

theorem insertion_order_witness:
  "N h_init 16 = Some 16 \<and> P h_init 16 = Some 16 \<and> 32 \<in> dom h_init \<and> 48 \<in> dom h_init \<and>
   (\<exists>h1 h2. LIST_ADDQ h_init 16 32 = Some (h1, 32) \<and> LIST_ADDQ h1 16 48 = Some (h2, 48) \<and>
      list_for_each_entry 3 h2 16 8 = Done [24, 40]) \<and>
   (\<exists>h1 h2. LIST_ADD h_init 16 32 = Some (h1, 32) \<and> LIST_ADD h1 16 48 = Some (h2, 48) \<and>
      list_for_each_entry 3 h2 16 8 = Done [40, 24])"
proof -
  have a: "N h_init 16 = Some 16" "P h_init 16 = Some 16" "32 \<in> dom h_init" "48 \<in> dom h_init"
    by (simp_all add: h_init_def load.simps)
  have e: "LIST_ELEM 32 8 = 24" "LIST_ELEM 48 8 = 40" by (simp_all add: LIST_ELEM_def)
  from insertion_order[OF a, of 8] obtain h1 h2 g1 g2 where
    "LIST_ADDQ h_init 16 32 = Some (h1, 32)" "LIST_ADDQ h1 16 48 = Some (h2, 48)"
    "\<forall>k. list_for_each_entry (k + 3) h2 16 8 = Done [24, 40]"
    "LIST_ADD h_init 16 32 = Some (g1, 32)" "LIST_ADD g1 16 48 = Some (g2, 48)"
    "\<forall>k. list_for_each_entry (k + 3) g2 16 8 = Done [40, 24]"
    unfolding e by auto
  moreover from this have "list_for_each_entry 3 h2 16 8 = Done [24, 40]"
    "list_for_each_entry 3 g2 16 8 = Done [40, 24]"
    by (metis add_0)+
  ultimately show ?thesis using a by blast
qed

section \<open>Insertion and removal, round trip\<close>

text \<open>
  Claim C3: for an empty head \<open>H\<close> and another live node \<open>A\<close>, \<open>LIST_ADD(H, A)\<close> followed
  by \<open>LIST_DEL_INIT(A)\<close> leaves \<open>H\<close> empty (\<open>LIST_ISEMPTY(H)\<close>, that is \<open>H->n == H\<close>, and
  \<open>H->p == H\<close> as well) and \<open>A\<close> detached (\<open>A->n == A\<close> and \<open>A->p == A\<close>); no field of any
  other node has changed.
\<close>

theorem LIST_ADD_LIST_DEL_INIT_round_trip:
  assumes "N h H = Some H" "P h H = Some H" "A \<in> dom h" "A \<noteq> H"
  shows "\<exists>h1 h2. LIST_ADD h H A = Some (h1, A) \<and> LIST_DEL_INIT h1 A = Some (h2, A) \<and>
     LIST_ISEMPTY h2 H = Some True \<and> N h2 H = Some H \<and> P h2 H = Some H \<and>
     N h2 A = Some A \<and> P h2 A = Some A \<and>
     (\<forall>s. slot_addr s \<noteq> A \<longrightarrow> load h2 s = load h s)"
proof -
  have Hd: "H \<in> dom h" using assms(1) load_defined[of h "Slot_n H"] by auto
  from LIST_ADD_loads[OF assms(1,3) Hd assms(4)] obtain h1 where
    h1: "LIST_ADD h H A = Some (h1, A)" "dom h1 = dom h"
    and L1: "\<And>s. load h1 s = (if s = Slot_p A then Some H else if s = Slot_p H then Some A
         else if s = Slot_n H then Some A else if s = Slot_n A then Some H else load h s)"
    by blast
  have a: "N h1 A = Some H" "P h1 A = Some H" using assms(4) by (simp_all add: L1)
  from LIST_DEL_INIT_loads[OF a] Hd h1(2) obtain h2 where
    h2: "LIST_DEL_INIT h1 A = Some (h2, A)"
    and L2: "\<And>s. load h2 s = (if s = Slot_n A then Some A else if s = Slot_p A then Some A
          else if s = Slot_n H then Some H else if s = Slot_p H then Some H else load h1 s)"
    by auto
  have n: "N h2 H = Some H" "P h2 H = Some H" "N h2 A = Some A" "P h2 A = Some A"
    using assms(4) by (simp_all add: L2)
  have e: "LIST_ISEMPTY h2 H = Some True" by (simp add: LIST_ISEMPTY_def n)
  have f: "\<forall>s. slot_addr s \<noteq> A \<longrightarrow> load h2 s = load h s"
  proof (intro allI impI)
    fix s assume "slot_addr s \<noteq> A"
    then show "load h2 s = load h s" using assms(1,2) by (cases s) (auto simp: L2 L1)
  qed
  show ?thesis using h1 h2 n e f by blast
qed

theorem LIST_ADD_LIST_DEL_INIT_round_trip_witness:
  "N h_init 16 = Some 16 \<and> P h_init 16 = Some 16 \<and> 32 \<in> dom h_init \<and>
   LIST_ADD h_init 16 32 = Some (h_add, 32) \<and>
   (\<exists>h2. LIST_DEL_INIT h_add 32 = Some (h2, 32) \<and> LIST_ISEMPTY h2 16 = Some True \<and>
      P h2 16 = Some 16 \<and> N h2 32 = Some 32 \<and> P h2 32 = Some 32 \<and> N h2 48 = Some 0)"
proof -
  have a: "N h_init 16 = Some 16" "P h_init 16 = Some 16" "32 \<in> dom h_init" "(32::ptr) \<noteq> 16"
    by (simp_all add: h_init_def load.simps)
  have b: "N h_init 48 = Some 0" by (simp add: h_init_def load.simps)
  from LIST_ADD_LIST_DEL_INIT_round_trip[OF a] run_add b obtain h2 where
    "LIST_DEL_INIT h_add 32 = Some (h2, 32)" "LIST_ISEMPTY h2 16 = Some True"
    "P h2 16 = Some 16" "N h2 32 = Some 32" "P h2 32 = Some 32" "N h2 48 = Some 0"
    by fastforce
  then show ?thesis using a run_add by blast
qed

section \<open>Removal\<close>

text \<open>
  Claim C4: for a node \<open>el\<close> linked in a well-formed list, with successor \<open>nx\<close> and
  predecessor \<open>pv\<close>, \<open>LIST_DEL_INIT(el)\<close> gives the same heap and the same value as
  \<open>LIST_DEL(el)\<close> followed by \<open>LIST_INIT\<close> on the node: both return \<open>el\<close>, the neighbours
  skip the node (\<open>pv->n == nx\<close>, \<open>nx->p == pv\<close>), the node is detached
  (\<open>el->n == el->p == el\<close>), and no other field has changed.
\<close>

theorem LIST_DEL_INIT_refines:
  assumes "linked h el" "N h el = Some nx" "P h el = Some pv"
  shows "LIST_DEL_INIT h el = remove_then_reinit h el \<and>
    (\<exists>h'. LIST_DEL_INIT h el = Some (h', el) \<and> dom h' = dom h \<and>
       N h' el = Some el \<and> P h' el = Some el \<and>
       (pv \<noteq> el \<longrightarrow> N h' pv = Some nx) \<and> (nx \<noteq> el \<longrightarrow> P h' nx = Some pv) \<and>
       (\<forall>s. s \<notin> {Slot_n el, Slot_p el, Slot_n pv, Slot_p nx} \<longrightarrow> load h' s = load h s))"
proof -
  from linkedE[OF assms(1)] assms(2,3) have d: "nx \<in> dom h" "pv \<in> dom h" by auto
  from LIST_DEL_INIT_loads[OF assms(2,3) d] obtain h' where
    h': "LIST_DEL_INIT h el = Some (h', el)" "dom h' = dom h"
    and L: "\<And>s. load h' s = (if s = Slot_n el then Some el else if s = Slot_p el then Some el
          else if s = Slot_n pv then Some nx else if s = Slot_p nx then Some pv else load h s)"
    by blast
  show ?thesis using h' LIST_DEL_INIT_eq[of h el] by (simp add: L)
qed

theorem LIST_DEL_INIT_refines_witness:
  "linked h_addq 32 \<and> N h_addq 32 = Some 48 \<and> P h_addq 32 = Some 16 \<and>
   LIST_DEL_INIT h_addq 32 = remove_then_reinit h_addq 32 \<and>
   (\<exists>h'. LIST_DEL_INIT h_addq 32 = Some (h', 32) \<and> N h' 32 = Some 32 \<and> P h' 32 = Some 32 \<and>
      N h' 16 = Some 48 \<and> P h' 48 = Some 16 \<and> P h' 16 = Some 48 \<and> N h' 48 = Some 16)"
proof -
  have a: "linked h_addq 32" "N h_addq 32 = Some 48" "P h_addq 32 = Some 16"
    by (simp_all add: linked_def h_addq_def load.simps)
  have b: "P h_addq 16 = Some 48" "N h_addq 48 = Some 16" by (simp_all add: h_addq_def load.simps)
  note t = LIST_DEL_INIT_refines[OF a]
  from t have e: "LIST_DEL_INIT h_addq 32 = remove_then_reinit h_addq 32" by (rule conjunct1)
  from t[THEN conjunct2] obtain h' where
    "LIST_DEL_INIT h_addq 32 = Some (h', 32)" "N h' 32 = Some 32" "P h' 32 = Some 32"
    "N h' 16 = Some 48" "P h' 48 = Some 16"
    "\<forall>s. s \<notin> {Slot_n 32, Slot_p 32, Slot_n 16, Slot_p 48} \<longrightarrow> load h' s = load h_addq s"
    by force
  moreover from this(6) b have "P h' 16 = Some 48" "N h' 48 = Some 16" by auto
  ultimately show ?thesis using a e by blast
qed

text \<open>
  Claim C5: for a node \<open>el\<close> linked in a well-formed list, with successor \<open>nx\<close> and
  predecessor \<open>pv\<close>, \<open>LIST_DEL(el)\<close> returns \<open>el\<close> and stores to two slots only:
  \<open>pv->n\<close> becomes \<open>nx\<close> and \<open>nx->p\<close> becomes \<open>pv\<close>. The node's own \<open>n\<close> and \<open>p\<close> still
  hold \<open>nx\<close> and \<open>pv\<close>, and every other field of every node is as before.
\<close>

theorem LIST_DEL_frame:
  assumes "linked h el" "N h el = Some nx" "P h el = Some pv"
  shows "\<exists>h'. LIST_DEL h el = Some (h', el) \<and> dom h' = dom h \<and>
      N h' pv = Some nx \<and> P h' nx = Some pv \<and>
      N h' el = Some nx \<and> P h' el = Some pv \<and>
      (\<forall>s. s \<noteq> Slot_n pv \<longrightarrow> s \<noteq> Slot_p nx \<longrightarrow> load h' s = load h s)"
proof -
  from linkedE[OF assms(1)] assms(2,3) have d: "nx \<in> dom h" "pv \<in> dom h" by auto
  from LIST_DEL_loads[OF assms(2,3) d] obtain h' where
    h': "LIST_DEL h el = Some (h', el)" "dom h' = dom h"
    and L: "\<And>s. load h' s = (if s = Slot_n pv then Some nx else if s = Slot_p nx then Some pv else load h s)"
    by blast
  have "N h' el = Some nx" "P h' el = Some pv" using assms(2,3) by (simp_all add: L)
  then show ?thesis using h' by (simp add: L)
qed

theorem LIST_DEL_frame_witness:
  "linked h_addq 32 \<and> N h_addq 32 = Some 48 \<and> P h_addq 32 = Some 16 \<and>
   LIST_DEL h_addq 32 = Some (h_del, 32) \<and>
   N h_del 16 = Some 48 \<and> P h_del 48 = Some 16 \<and> N h_del 32 = Some 48 \<and> P h_del 32 = Some 16 \<and>
   P h_del 16 = P h_addq 16 \<and> N h_del 48 = N h_addq 48"
proof -
  have a: "linked h_addq 32" "N h_addq 32 = Some 48" "P h_addq 32 = Some 16"
    by (simp_all add: linked_def h_addq_def load.simps)
  from LIST_DEL_frame[OF a] run_del have
    "N h_del 16 = Some 48" "P h_del 48 = Some 16" "N h_del 32 = Some 48" "P h_del 32 = Some 16"
    "\<forall>s. s \<noteq> Slot_n 16 \<longrightarrow> s \<noteq> Slot_p 48 \<longrightarrow> load h_del s = load h_addq s"
    by auto
  moreover from this(5) have "P h_del 16 = P h_addq 16" "N h_del 48 = N h_addq 48" by auto
  ultimately show ?thesis using a run_del by blast
qed

text \<open>
  Claim C6: \<open>LIST_ADDED(el)\<close> is true exactly when \<open>el->n\<close> differs from \<open>el\<close>. So for a
  linked node whose successor is not the node itself (a node of a list of two or more
  nodes), \<open>LIST_ADDED\<close> is still true after \<open>LIST_DEL\<close>. In particular, for a list
  built from a head and a node on it other than the head: after \<open>LIST_DEL\<close> the node is
  no longer reachable from the head, and \<open>LIST_ADDED\<close> is true of it all the same.
\<close>

theorem LIST_ADDED_after_LIST_DEL:
  "(\<forall>v. N h el = Some v \<longrightarrow> LIST_ADDED h el = Some (v \<noteq> el)) \<and>
   (linked h el \<and> N h el = Some nx \<and> nx \<noteq> el \<longrightarrow>
      (\<exists>h'. LIST_DEL h el = Some (h', el) \<and> LIST_ADDED h' el = Some True)) \<and>
   (built head h \<and> el \<in> reach h head \<and> el \<noteq> head \<longrightarrow>
      (\<exists>h'. LIST_DEL h el = Some (h', el) \<and> el \<notin> reach h' head \<and> LIST_ADDED h' el = Some True))"
proof (intro conjI allI impI)
  fix v assume "N h el = Some v"
  then show "LIST_ADDED h el = Some (v \<noteq> el)" by (simp add: LIST_ADDED_def)
next
  assume a: "linked h el \<and> N h el = Some nx \<and> nx \<noteq> el"
  from linkedE[of h el] a obtain pv where pv: "P h el = Some pv" "nx \<in> dom h" "pv \<in> dom h"
    by (metis option.inject)
  have nxf: "N h el = Some nx" using a by simp
  from LIST_DEL_loads[OF nxf pv(1) pv(2,3)] obtain h' where
    h': "LIST_DEL h el = Some (h', el)"
    and L: "\<And>s. load h' s = (if s = Slot_n pv then Some nx else if s = Slot_p nx then Some pv else load h s)"
    by blast
  have "N h' el = Some nx" using a by (simp add: L)
  then have "LIST_ADDED h' el = Some True" using a by (simp add: LIST_ADDED_def)
  then show "\<exists>h'. LIST_DEL h el = Some (h', el) \<and> LIST_ADDED h' el = Some True" using h' by blast
next
  assume a: "built head h \<and> el \<in> reach h head \<and> el \<noteq> head"
  then have inv: "ring_inv h head" and el: "el \<in> reach h head" and elh: "el \<noteq> head"
    using built_ring_inv by auto
  from step_del[OF inv el elh] obtain h' where
    h': "LIST_DEL h el = Some (h', el)" "reach h' head = reach h head - {el}" "N h' el = N h el"
    by blast
  from ring_invE[OF inv el] obtain nx' where nx': "N h el = Some nx'" by blast
  have "nx' \<noteq> el" using ring_no_self_loop[OF inv el elh] nx' by auto
  then have "LIST_ADDED h' el = Some True" using h'(3) nx' by (simp add: LIST_ADDED_def)
  then show "\<exists>h'. LIST_DEL h el = Some (h', el) \<and> el \<notin> reach h' head \<and> LIST_ADDED h' el = Some True"
    using h' by auto
qed

theorem LIST_ADDED_after_LIST_DEL_witness:
  "linked h_addq 32 \<and> N h_addq 32 = Some 48 \<and> built 16 h_addq \<and> 32 \<in> reach h_addq 16 \<and>
   LIST_DEL h_addq 32 = Some (h_del, 32) \<and> 32 \<notin> reach h_del 16 \<and>
   LIST_ADDED h_addq 32 = Some True \<and> LIST_ADDED h_del 32 = Some True \<and>
   LIST_ADDED h_init 16 = Some False"
proof -
  have l: "linked h_addq 32" by (simp add: linked_def load.simps h_addq_def)
  have n: "N h_addq 32 = Some 48" by (simp add: load.simps h_addq_def)
  have r: "32 \<in> reach h_addq 16" by (simp add: reach_h_addq)
  have n1: "N h_init 16 = Some 16" by (simp add: load.simps h_init_def)
  from LIST_ADDED_after_LIST_DEL[of h_addq 32 48 16] l n r built_h_addq run_del
  have "32 \<notin> reach h_del 16" "LIST_ADDED h_addq 32 = Some True" "LIST_ADDED h_del 32 = Some True"
    by auto
  moreover from LIST_ADDED_after_LIST_DEL[of h_init 16 0 16] n1 have "LIST_ADDED h_init 16 = Some False"
    by auto
  ultimately show ?thesis using l n r built_h_addq run_del by simp
qed

section \<open>The locked macros without contention\<close>

text \<open>
  Claim C7: on an empty head (\<open>lh->n == lh\<close>) in a heap with no node at the address of
  the busy marker, \<open>LIST_POP_LOCKED\<close>, run with any fuel, returns \<open>NULL\<close> after one pass
  and leaves the heap exactly as it was on entry: it exchanges \<open>lh->n\<close> for the busy
  marker, stores \<open>lh\<close> back into \<open>lh->n\<close>, and issues one barrier.
\<close>

theorem LIST_POP_LOCKED_empty:
  assumes "N h lh = Some lh" "LLIST_BUSY \<notin> dom h"
  shows "LIST_POP_LOCKED (Suc k) (h, tr) lh off =
    Done ((h, tr @ [Xchg (Slot_n lh) LLIST_BUSY lh, Write (Slot_n lh) lh, Barrier]), NULL)"
proof -
  have d: "lh \<in> dom h" using assms(1) load_defined[of h "Slot_n lh"] by auto
  then have nb: "lh \<noteq> LLIST_BUSY" using assms(2) by auto
  have "LIST_POP_LOCKED_body lh off (h, tr) =
     Some (Break (h, tr @ [Xchg (Slot_n lh) LLIST_BUSY lh, Write (Slot_n lh) lh, Barrier]) NULL)"
    using nb d
    by (simp add: LIST_POP_LOCKED_body_def xchg_upd[OF assms(1)] assign_upd dom_upd barrier_upd
        upd_restore[OF assms(1)])
  then show ?thesis by (simp add: LIST_POP_LOCKED_def)
qed

theorem LIST_POP_LOCKED_empty_witness:
  "N h_init 16 = Some 16 \<and> P h_init 16 = Some 16 \<and> LLIST_BUSY \<notin> dom h_init \<and>
   LIST_POP_LOCKED 1 (h_init, []) 16 8 =
     Done ((h_init, [Xchg (Slot_n 16) LLIST_BUSY 16, Write (Slot_n 16) 16, Barrier]), NULL)"
proof -
  have a: "N h_init 16 = Some 16" "LLIST_BUSY \<notin> dom h_init"
    by (simp_all add: h_init_def load.simps LLIST_BUSY_def)
  have b: "P h_init 16 = Some 16" by (simp add: h_init_def load.simps)
  show ?thesis using LIST_POP_LOCKED_empty[OF a, of 0 "[]" 8] a b by simp
qed

text \<open>
  Claim C8: for a node \<open>el\<close> linked in a well-formed list, with successor \<open>nx\<close> and
  predecessor \<open>pv\<close>, in a heap with no node at the address of the busy marker,
  \<open>LIST_DEL_LOCKED(el)\<close>, run with any fuel, is done after one pass. It claims \<open>el->n\<close>
  and \<open>el->p\<close>, then \<open>pv->n\<close> if \<open>pv\<close> is not \<open>el\<close>, then \<open>nx->p\<close> if \<open>nx\<close> is not \<open>el\<close>; only
  then it stores \<open>nx->p = pv\<close> and \<open>pv->n = nx\<close>, and after a barrier \<open>el->p = el\<close> and
  \<open>el->n = el\<close>. In the end the neighbours skip the node, the node is detached, and
  every other field is as before.
\<close>

theorem LIST_DEL_LOCKED_uncontended:
  assumes "linked h el" "N h el = Some nx" "P h el = Some pv" "LLIST_BUSY \<notin> dom h"
  shows "\<exists>h'. LIST_DEL_LOCKED (Suc k) (h, tr) el =
      Done ((h', tr @ [Xchg (Slot_n el) LLIST_BUSY nx, Xchg (Slot_p el) LLIST_BUSY pv]
                   @ (if pv \<noteq> el then [Xchg (Slot_n pv) LLIST_BUSY el] else [])
                   @ (if nx \<noteq> el then [Xchg (Slot_p nx) LLIST_BUSY el] else [])
                   @ [Write (Slot_p nx) pv, Write (Slot_n pv) nx, Barrier,
                      Write (Slot_p el) el, Write (Slot_n el) el, Barrier]), ()) \<and>
      dom h' = dom h \<and>
      (\<forall>s. load h' s = (if s = Slot_n el \<or> s = Slot_p el then Some el
                        else if s = Slot_n pv then Some nx
                        else if s = Slot_p nx then Some pv else load h s))"
proof -
  from linkedE[OF assms(1)] assms(2,3) have
    l: "P h nx = Some el" "N h pv = Some el" and d: "nx \<in> dom h" "pv \<in> dom h" "el \<in> dom h"
    by auto
  have nb: "nx \<noteq> LLIST_BUSY" "pv \<noteq> LLIST_BUSY" "el \<noteq> LLIST_BUSY" using d assms(4) by auto
  have eq: "pv = el \<longleftrightarrow> nx = el" using l assms(2,3) by auto
  show ?thesis
  proof (cases "pv = el")
    case True
    then have nxel: "nx = el" using eq by simp
    show ?thesis using True nxel nb d assms(2,3)
      by (simp add: LIST_DEL_LOCKED_def LIST_DEL_LOCKED_body_def LIST_DEL_LOCKED_succ_def
          LIST_DEL_LOCKED_rewire_def xchg_upd assign_upd dom_upd barrier_upd load_upd)
  next
    case False
    then have nxel: "nx \<noteq> el" using eq by simp
    show ?thesis using False nxel nb d assms(2,3) l
      by (simp add: LIST_DEL_LOCKED_def LIST_DEL_LOCKED_body_def LIST_DEL_LOCKED_succ_def
          LIST_DEL_LOCKED_rewire_def xchg_upd assign_upd dom_upd barrier_upd load_upd)
  qed
qed

theorem LIST_DEL_LOCKED_uncontended_witness:
  "linked h_addq 32 \<and> N h_addq 32 = Some 48 \<and> P h_addq 32 = Some 16 \<and> LLIST_BUSY \<notin> dom h_addq \<and>
   (\<exists>h'. LIST_DEL_LOCKED 1 (h_addq, []) 32 =
      Done ((h', [Xchg (Slot_n 32) LLIST_BUSY 48, Xchg (Slot_p 32) LLIST_BUSY 16,
                  Xchg (Slot_n 16) LLIST_BUSY 32, Xchg (Slot_p 48) LLIST_BUSY 32,
                  Write (Slot_p 48) 16, Write (Slot_n 16) 48, Barrier,
                  Write (Slot_p 32) 32, Write (Slot_n 32) 32, Barrier]), ()) \<and>
      N h' 32 = Some 32 \<and> P h' 32 = Some 32 \<and> N h' 16 = Some 48 \<and> P h' 48 = Some 16 \<and>
      P h' 16 = Some 48 \<and> N h' 48 = Some 16)"
proof -
  have a: "linked h_addq 32" "N h_addq 32 = Some 48" "P h_addq 32 = Some 16"
    "LLIST_BUSY \<notin> dom h_addq"
    by (simp_all add: linked_def h_addq_def load.simps LLIST_BUSY_def)
  have b: "P h_addq 16 = Some 48" "N h_addq 48 = Some 16" by (simp_all add: h_addq_def load.simps)
  from LIST_DEL_LOCKED_uncontended[OF a, of 0 "[]"] obtain h' where
    h': "LIST_DEL_LOCKED 1 (h_addq, []) 32 =
      Done ((h', [Xchg (Slot_n 32) LLIST_BUSY 48, Xchg (Slot_p 32) LLIST_BUSY 16,
                  Xchg (Slot_n 16) LLIST_BUSY 32, Xchg (Slot_p 48) LLIST_BUSY 32,
                  Write (Slot_p 48) 16, Write (Slot_n 16) 48, Barrier,
                  Write (Slot_p 32) 32, Write (Slot_n 32) 32, Barrier]), ())"
    and L: "\<forall>s. load h' s = (if s = Slot_n 32 \<or> s = Slot_p 32 then Some 32
                        else if s = Slot_n 16 then Some 48
                        else if s = Slot_p 48 then Some 16 else load h_addq s)"
    by auto
  have "N h' 32 = Some 32" "P h' 32 = Some 32" "N h' 16 = Some 48" "P h' 48 = Some 16"
    "P h' 16 = Some 48" "N h' 48 = Some 16"
    using b by (simp_all add: L)
  then show ?thesis using a h' by blast
qed

section \<open>The static initializer and the busy marker\<close>

text \<open>
  Claim C10, as it is written, lets every locked macro spin forever on a head that
  holds \<open>ILH\<close>. \<open>LIST_ADDQ_LOCKED\<close> does not spin there: it starts from the head's \<open>p\<close>
  slot, which holds 2 and not the busy marker, and then goes through the pointer 2, at
  which there is no node.
\<close>

theorem LIST_ADDQ_LOCKED_ILH_no_spin:
  "h_ilh 16 = Some ILH \<and> LIST_ADDQ_LOCKED 1 (h_ilh, []) 16 32 = Undefined"
proof -
  have a: "h_ilh 16 = Some ILH" "2 \<notin> dom h_ilh" by (simp_all add: h_ilh_def)
  show ?thesis using LIST_ADDQ_LOCKED_ILH[OF a, of 0 "[]" 32] a by simp
qed

text \<open>
  Claim C10, amended: the busy marker \<open>LLIST_BUSY\<close> is the pointer value 1, and \<open>ILH\<close> sets
  the \<open>n\<close> field to that same value 1. So a head that holds \<open>ILH\<close> has the busy marker in
  its \<open>n\<close> slot, and \<open>LIST_ADD_LOCKED\<close>, \<open>LIST_POP_LOCKED\<close> and \<open>LIST_DEL_LOCKED\<close> on such a
  head spin forever: whatever the fuel, they use it up. \<open>LIST_ADDQ_LOCKED\<close> on such a
  head does not spin; it runs into undefined behaviour in its first pass, at the
  pointer 2 that \<open>ILH\<close> puts into the \<open>p\<close> field.
\<close>

theorem ILH_holds_busy_marker:
  "LLIST_BUSY = 1 \<and> list_n ILH = LLIST_BUSY \<and>
   (h lh = Some ILH \<longrightarrow>
      N h lh = Some LLIST_BUSY \<and>
      (\<forall>k tr el. LIST_ADD_LOCKED k (h, tr) lh el = OutOfFuel) \<and>
      (\<forall>k tr off. LIST_POP_LOCKED k (h, tr) lh off = OutOfFuel) \<and>
      (\<forall>k tr. LIST_DEL_LOCKED k (h, tr) lh = OutOfFuel) \<and>
      (2 \<notin> dom h \<longrightarrow> (\<forall>k tr el. LIST_ADDQ_LOCKED (Suc k) (h, tr) lh el = Undefined)))"
proof (intro conjI impI allI)
  show "LLIST_BUSY = 1" by (simp add: LLIST_BUSY_def)
  show "list_n ILH = LLIST_BUSY" by (simp add: LLIST_BUSY_def ILH_def)
next
  assume a: "h lh = Some ILH"
  then show n: "N h lh = Some LLIST_BUSY" by (simp add: load.simps ILH_def LLIST_BUSY_def)
  show "LIST_ADD_LOCKED k (h, tr) lh el = OutOfFuel" for k tr el
    by (rule LIST_ADD_LOCKED_spins[OF n])
  show "LIST_POP_LOCKED k (h, tr) lh off = OutOfFuel" for k tr off
    by (rule LIST_POP_LOCKED_spins[OF n])
  show "LIST_DEL_LOCKED k (h, tr) lh = OutOfFuel" for k tr
    by (rule LIST_DEL_LOCKED_spins[OF n])
  show "LIST_ADDQ_LOCKED (Suc k) (h, tr) lh el = Undefined" if "2 \<notin> dom h" for k tr el
    by (rule LIST_ADDQ_LOCKED_ILH[OF a that])
qed

theorem ILH_holds_busy_marker_witness:
  "h_ilh 16 = Some ILH \<and> 2 \<notin> dom h_ilh \<and> N h_ilh 16 = Some LLIST_BUSY \<and>
   LIST_ADD_LOCKED 1000 (h_ilh, []) 16 32 = OutOfFuel \<and>
   LIST_POP_LOCKED 1000 (h_ilh, []) 16 8 = OutOfFuel \<and>
   LIST_DEL_LOCKED 1000 (h_ilh, []) 16 = OutOfFuel \<and>
   LIST_ADDQ_LOCKED (Suc 999) (h_ilh, []) 16 32 = Undefined"
proof -
  have a: "h_ilh 16 = Some ILH" "2 \<notin> dom h_ilh" by (simp_all add: h_ilh_def)
  show ?thesis using ILH_holds_busy_marker[of h_ilh 16] a by blast
qed

end
